theory Spec2Isabelle
  imports Complex_Main "HOL-Library.Multiset"
begin

section \<open>The sliding puzzle core of sliding_puzzle_python.py\<close>

text \<open>
  The class \<open>SlidingPuzzleGame\<close> is embedded as a record and its methods as functions
  that take the state and return the new one. Python integers are \<open>int\<close>. The only
  exception the core can raise is the \<open>IndexError\<close> of a list access, so a method
  returns \<open>error + 'a\<close>, with \<open>Inl IndexError\<close> for the raise. A raise is its
  exception alone: the embedding does not say what the object holds after a call that
  raised. The rows of a grid are
  distinct list objects (they come from a list comprehension or from \<open>row[:]\<close>), so
  a grid is a value of type \<open>int list list\<close>. The two ambient inputs are parameters:
  \<open>rnd k\<close> is the content of \<open>directions\<close> after \<open>random.shuffle\<close> in iteration
  \<open>k\<close> of the shuffle loop, and \<open>now\<close> is the value of \<open>time.time()\<close>.
\<close>

subsection \<open>Exceptions and Python list access\<close>

datatype error = IndexError

definition ebind :: "error + 'a \<Rightarrow> ('a \<Rightarrow> error + 'b) \<Rightarrow> error + 'b" where
  "ebind m f = (case m of Inl e \<Rightarrow> Inl e | Inr x \<Rightarrow> f x)"

text \<open>
  The position that the index \<open>i\<close> denotes in a list of \<open>len\<close> elements: an
  index below 0 counts from the end, and an index outside the list raises.
\<close>

definition norm_index :: "nat \<Rightarrow> int \<Rightarrow> error + nat" where
  "norm_index len i =
     (if 0 \<le> i \<and> i < int len then Inr (nat i)
      else if i < 0 \<and> 0 \<le> i + int len then Inr (nat (i + int len))
      else Inl IndexError)"

text \<open>\<open>xs[i]\<close>, and \<open>xs[i] = v\<close> returning the list it leaves.\<close>

definition py_index :: "'a list \<Rightarrow> int \<Rightarrow> error + 'a" where
  "py_index xs i = ebind (norm_index (length xs) i) (\<lambda>j. Inr (xs ! j))"

definition py_store :: "'a list \<Rightarrow> int \<Rightarrow> 'a \<Rightarrow> error + 'a list" where
  "py_store xs i v = ebind (norm_index (length xs) i) (\<lambda>j. Inr (xs[j := v]))"

text \<open>\<open>range(n)\<close>, empty when \<open>n \<le> 0\<close>.\<close>

definition range_py :: "int \<Rightarrow> int list" where
  "range_py n = map int [0..<nat n]"

type_synonym grid_t = "int list list"

text \<open>\<open>grid[row][col]\<close> and \<open>grid[row][col] = v\<close>.\<close>

definition grid_get :: "grid_t \<Rightarrow> int \<Rightarrow> int \<Rightarrow> error + int" where
  "grid_get g row col = ebind (py_index g row) (\<lambda>r. py_index r col)"

definition grid_set :: "grid_t \<Rightarrow> int \<Rightarrow> int \<Rightarrow> int \<Rightarrow> error + grid_t" where
  "grid_set g row col v =
     ebind (py_index g row) (\<lambda>r. ebind (py_store r col v) (\<lambda>r'. py_store g row r'))"

text \<open>
  The pairs \<open>(row, col)\<close> that \<open>for row in range(size): for col in range(size)\<close>
  visits, in the order it visits them.
\<close>

definition cells :: "int \<Rightarrow> (int \<times> int) list" where
  "cells n = List.product (range_py n) (range_py n)"

subsection \<open>The data model\<close>

datatype Difficulty = EASY | MEDIUM | HARD | EXPERT

fun difficulty_value :: "Difficulty \<Rightarrow> int" where
  "difficulty_value EASY = 3"
| "difficulty_value MEDIUM = 4"
| "difficulty_value HARD = 5"
| "difficulty_value EXPERT = 6"

record GameStats =
  moves :: int
  start_time :: real
  elapsed_time :: real
  is_solvable :: bool

definition new_GameStats :: GameStats where
  "new_GameStats = \<lparr>moves = 0, start_time = 0, elapsed_time = 0, is_solvable = True\<rparr>"

record SlidingPuzzleGame =
  difficulty :: Difficulty
  size_n :: int
  grid :: grid_t
  blank_pos :: "int \<times> int"
  stats :: GameStats

subsection \<open>\<open>_find_blank_position\<close>\<close>

fun find_blank_in :: "grid_t \<Rightarrow> (int \<times> int) list \<Rightarrow> error + (int \<times> int)" where
  "find_blank_in g [] = Inr (0, 0)"
| "find_blank_in g ((row, col) # ps) =
     ebind (grid_get g row col)
       (\<lambda>v. if v = 0 then Inr (row, col) else find_blank_in g ps)"

definition find_blank_position :: "SlidingPuzzleGame \<Rightarrow> error + (int \<times> int)" where
  "find_blank_position s = find_blank_in (grid s) (cells (size_n s))"

subsection \<open>\<open>_shuffle_puzzle\<close>\<close>

text \<open>
  The inner loop over \<open>directions\<close>: the first direction that leads to a cell in
  bounds moves the blank there and ends the loop.
\<close>

fun try_directions ::
  "int \<Rightarrow> grid_t \<Rightarrow> int \<times> int \<Rightarrow> (int \<times> int) list \<Rightarrow> error + (grid_t \<times> (int \<times> int))" where
  "try_directions n shuffled (blank_row, blank_col) [] = Inr (shuffled, (blank_row, blank_col))"
| "try_directions n shuffled (blank_row, blank_col) ((dr, dc) # ds) =
     (let new_row = blank_row + dr; new_col = blank_col + dc
      in if 0 \<le> new_row \<and> new_row < n \<and> 0 \<le> new_col \<and> new_col < n
         then ebind (grid_get shuffled new_row new_col) (\<lambda>v.
              ebind (grid_set shuffled blank_row blank_col v) (\<lambda>g1.
              ebind (grid_set g1 new_row new_col 0) (\<lambda>g2.
              Inr (g2, (new_row, new_col)))))
         else try_directions n shuffled (blank_row, blank_col) ds)"

text \<open>
  The outer loop, over the iteration numbers \<open>ks\<close>. \<open>random.shuffle\<close> leaves a
  permutation of the four directions in \<open>directions\<close>; the loop is defined for any
  list that \<open>rnd\<close> gives, so what holds for every \<open>rnd\<close> holds for every outcome of
  the shuffles.
\<close>

fun shuffle_loop ::
  "int \<Rightarrow> (nat \<Rightarrow> (int \<times> int) list) \<Rightarrow> nat list \<Rightarrow> grid_t \<times> (int \<times> int)
     \<Rightarrow> error + (grid_t \<times> (int \<times> int))" where
  "shuffle_loop n rnd [] st = Inr st"
| "shuffle_loop n rnd (k # ks) st =
     ebind (try_directions n (fst st) (snd st) (rnd k)) (shuffle_loop n rnd ks)"

definition shuffle_puzzle ::
  "SlidingPuzzleGame \<Rightarrow> (nat \<Rightarrow> (int \<times> int) list) \<Rightarrow> error + grid_t" where
  "shuffle_puzzle s rnd =
     (let shuffled = map (\<lambda>row. row) (grid s)
      in ebind (shuffle_loop (size_n s) rnd [0..<nat (size_n s * size_n s * 10)]
                  (shuffled, blank_pos s))
           (\<lambda>st. Inr (fst st)))"

subsection \<open>\<open>_check_solvability\<close>\<close>

text \<open>The two nested loops that count the inversions of \<open>flat_puzzle\<close>.\<close>

definition count_inversions :: "int list \<Rightarrow> int" where
  "count_inversions flat_puzzle =
     fold (\<lambda>i inversions.
             fold (\<lambda>j inversions.
                     if flat_puzzle ! i > flat_puzzle ! j then inversions + 1 else inversions)
               [i + 1..<length flat_puzzle] inversions)
       [0..<length flat_puzzle] 0"

definition flat_puzzle_of :: "grid_t \<Rightarrow> int list" where
  "flat_puzzle_of g = filter (\<lambda>num. num \<noteq> 0) (concat g)"

definition check_solvability :: "SlidingPuzzleGame \<Rightarrow> error + bool" where
  "check_solvability s =
     (let flat_puzzle = flat_puzzle_of (grid s);
          inversions = count_inversions flat_puzzle
      in if size_n s mod 2 = 1 then Inr (inversions mod 2 = 0)
         else ebind (find_blank_position s) (\<lambda>(blank_row, blank_col).
              let blank_from_bottom = size_n s - blank_row
              in Inr ((inversions + blank_from_bottom) mod 2 = 1)))"

subsection \<open>\<open>_make_solvable\<close>\<close>

fun non_blank_tiles ::
  "grid_t \<Rightarrow> (int \<times> int) list \<Rightarrow> (int \<times> int) list \<Rightarrow> error + (int \<times> int) list" where
  "non_blank_tiles g [] acc = Inr acc"
| "non_blank_tiles g ((row, col) # ps) acc =
     ebind (grid_get g row col)
       (\<lambda>v. non_blank_tiles g ps (if v \<noteq> 0 then acc @ [(row, col)] else acc))"

text \<open>
  The tuple assignment reads both cells first, then stores into the first and into the
  second.
\<close>

definition make_solvable :: "SlidingPuzzleGame \<Rightarrow> error + SlidingPuzzleGame" where
  "make_solvable s =
     ebind (non_blank_tiles (grid s) (cells (size_n s)) []) (\<lambda>nb.
       if length nb \<ge> 2
       then (let (r1, c1) = nb ! 0; (r2, c2) = nb ! 1
             in ebind (grid_get (grid s) r2 c2) (\<lambda>v2.
                ebind (grid_get (grid s) r1 c1) (\<lambda>v1.
                ebind (grid_set (grid s) r1 c1 v2) (\<lambda>g1.
                ebind (grid_set g1 r2 c2 v1) (\<lambda>g2.
                Inr (s\<lparr>grid := g2\<rparr>))))))
       else Inr s)"

subsection \<open>\<open>generate_solvable_puzzle\<close> and the constructor\<close>

definition solved_rows :: "int \<Rightarrow> grid_t" where
  "solved_rows n = map (\<lambda>row. map (\<lambda>col. row * n + col + 1) (range_py n)) (range_py n)"

definition generate_solvable_puzzle ::
  "SlidingPuzzleGame \<Rightarrow> (nat \<Rightarrow> (int \<times> int) list) \<Rightarrow> real \<Rightarrow> error + SlidingPuzzleGame" where
  "generate_solvable_puzzle s rnd now =
     (let n = size_n s
      in ebind (grid_set (solved_rows n) (n - 1) (n - 1) 0) (\<lambda>g1.
         let s1 = s\<lparr>grid := g1, blank_pos := (n - 1, n - 1)\<rparr>
         in ebind (shuffle_puzzle s1 rnd) (\<lambda>g2.
         let s2 = s1\<lparr>grid := g2\<rparr>
         in ebind (find_blank_position s2) (\<lambda>bp.
         let s3 = s2\<lparr>blank_pos := bp\<rparr>
         in ebind (check_solvability s3) (\<lambda>ok.
         ebind (if \<not> ok
                then ebind (make_solvable s3) (\<lambda>s4.
                     ebind (find_blank_position s4) (\<lambda>bp'.
                     Inr (s4\<lparr>blank_pos := bp'\<rparr>)))
                else Inr s3) (\<lambda>s5.
         Inr (s5\<lparr>stats := new_GameStats\<lparr>start_time := now\<rparr>\<rparr>)))))))"

definition init ::
  "Difficulty \<Rightarrow> (nat \<Rightarrow> (int \<times> int) list) \<Rightarrow> real \<Rightarrow> error + SlidingPuzzleGame" where
  "init d rnd now =
     generate_solvable_puzzle
       \<lparr>difficulty = d, size_n = difficulty_value d, grid = [], blank_pos = (0, 0),
        stats = new_GameStats\<rparr> rnd now"

text \<open>
  The body of \<open>__init__\<close> with the size that it reads from \<open>difficulty.value\<close> as a
  parameter \<open>v\<close>; the constructor is this body at the value of its argument. No member
  of \<open>Difficulty\<close> has a value of zero or below, so such a size reaches the body only
  with an argument that is not a member of the enumeration.
\<close>

definition init_body ::
  "Difficulty \<Rightarrow> int \<Rightarrow> (nat \<Rightarrow> (int \<times> int) list) \<Rightarrow> real \<Rightarrow> error + SlidingPuzzleGame" where
  "init_body d v rnd now =
     generate_solvable_puzzle
       \<lparr>difficulty = d, size_n = v, grid = [], blank_pos = (0, 0), stats = new_GameStats\<rparr>
       rnd now"

subsection \<open>\<open>can_move_tile\<close>, \<open>move_tile\<close>, \<open>is_solved\<close>\<close>

definition can_move_tile :: "SlidingPuzzleGame \<Rightarrow> int \<Rightarrow> int \<Rightarrow> error + bool" where
  "can_move_tile s row col =
     (if \<not> (0 \<le> row \<and> row < size_n s \<and> 0 \<le> col \<and> col < size_n s) then Inr False
      else ebind (grid_get (grid s) row col) (\<lambda>v.
        if v = 0 then Inr False
        else (let (blank_row, blank_col) = blank_pos s;
                  row_diff = \<bar>row - blank_row\<bar>;
                  col_diff = \<bar>col - blank_col\<bar>
              in Inr ((row_diff = 1 \<and> col_diff = 0) \<or> (row_diff = 0 \<and> col_diff = 1)))))"

definition move_tile :: "SlidingPuzzleGame \<Rightarrow> int \<Rightarrow> int \<Rightarrow> error + (bool \<times> SlidingPuzzleGame)" where
  "move_tile s row col =
     ebind (can_move_tile s row col) (\<lambda>ok.
       if \<not> ok then Inr (False, s)
       else ebind (grid_get (grid s) row col) (\<lambda>v.
            ebind (grid_set (grid s) (fst (blank_pos s)) (snd (blank_pos s)) v) (\<lambda>g1.
            ebind (grid_set g1 row col 0) (\<lambda>g2.
            Inr (True, s\<lparr>grid := g2, blank_pos := (row, col),
                          stats := (stats s)\<lparr>moves := moves (stats s) + 1\<rparr>\<rparr>)))))"

fun is_solved_loop :: "grid_t \<Rightarrow> int \<Rightarrow> int \<Rightarrow> (int \<times> int) list \<Rightarrow> error + bool" where
  "is_solved_loop g n expected [] = Inr True"
| "is_solved_loop g n expected ((row, col) # ps) =
     (if row = n - 1 \<and> col = n - 1 then ebind (grid_get g row col) (\<lambda>v. Inr (v = 0))
      else ebind (grid_get g row col) (\<lambda>v.
             if v \<noteq> expected then Inr False else is_solved_loop g n (expected + 1) ps))"

definition is_solved :: "SlidingPuzzleGame \<Rightarrow> error + bool" where
  "is_solved s = is_solved_loop (grid s) (size_n s) 1 (cells (size_n s))"

subsection \<open>Well-formed boards\<close>

text \<open>
  A board of size \<open>n\<close> has \<open>n\<close> rows of \<open>n\<close> cells. On such a board every access
  \<open>grid[row][col]\<close> with \<open>(row, col)\<close> in bounds succeeds: \<open>cell\<close> is what it reads
  and \<open>upd\<close> is what the store leaves behind.
\<close>

definition wf_grid :: "int \<Rightarrow> grid_t \<Rightarrow> bool" where
  "wf_grid n g \<longleftrightarrow> int (length g) = n \<and> (\<forall>r \<in> set g. int (length r) = n)"

definition in_bounds :: "int \<Rightarrow> int \<times> int \<Rightarrow> bool" where
  "in_bounds n p \<longleftrightarrow> 0 \<le> fst p \<and> fst p < n \<and> 0 \<le> snd p \<and> snd p < n"

definition cell :: "grid_t \<Rightarrow> int \<times> int \<Rightarrow> int" where
  "cell g p = g ! nat (fst p) ! nat (snd p)"

definition upd :: "grid_t \<Rightarrow> int \<times> int \<Rightarrow> int \<Rightarrow> grid_t" where
  "upd g p v = g[nat (fst p) := (g ! nat (fst p))[nat (snd p) := v]]"

text \<open>The game object of the tests: a board and the position of its blank.\<close>

definition test_game :: "grid_t \<Rightarrow> int \<times> int \<Rightarrow> SlidingPuzzleGame" where
  "test_game g bp =
     \<lparr>difficulty = EASY, size_n = int (length g), grid = g, blank_pos = bp, stats = new_GameStats\<rparr>"

subsection \<open>Notions of the specification\<close>

text \<open>
  The value that a solved board holds at a cell other than the last one, the inversions
  of a list as the set of the pairs of positions that are out of order, and their number
  counted element by element.
\<close>

definition expected_at :: "int \<Rightarrow> int \<times> int \<Rightarrow> int" where
  "expected_at n p = fst p * n + snd p + 1"

definition inversion_pairs :: "int list \<Rightarrow> (nat \<times> nat) set" where
  "inversion_pairs xs = {(i, j). i < j \<and> j < length xs \<and> xs ! i > xs ! j}"

fun inv_count :: "int list \<Rightarrow> nat" where
  "inv_count [] = 0"
| "inv_count (x # xs) = length (filter (\<lambda>y. x > y) xs) + inv_count xs"

text \<open>A function with the values at two arguments exchanged.\<close>

definition swapped :: "('a \<Rightarrow> 'b) \<Rightarrow> 'a \<Rightarrow> 'a \<Rightarrow> 'a \<Rightarrow> 'b" where
  "swapped f a b q = (if q = a then f b else if q = b then f a else f q)"

text \<open>
  The invariant of the data model: the board is well formed and holds each of the values
  \<open>0, \<dots>, n * n - 1\<close> once, and the stored blank position is a cell in bounds that
  holds 0.
\<close>

definition board_inv :: "int \<Rightarrow> grid_t \<Rightarrow> bool" where
  "board_inv n g \<longleftrightarrow> wf_grid n g \<and> mset (concat g) = mset (range_py (n * n))"

definition state_inv :: "SlidingPuzzleGame \<Rightarrow> bool" where
  "state_inv s \<longleftrightarrow>
     board_inv (size_n s) (grid s) \<and> in_bounds (size_n s) (blank_pos s) \<and>
     cell (grid s) (blank_pos s) = 0"

text \<open>
  The calls that the presentation layer makes after the constructor: a restart or a change
  of difficulty sets the difficulty and the size and calls \<open>generate_solvable_puzzle\<close>,
  a click calls \<open>move_tile\<close>. A sequence of calls stops at the first one that raises.
\<close>

datatype call = Generate Difficulty "nat \<Rightarrow> (int \<times> int) list" real | Move int int

fun run :: "SlidingPuzzleGame \<Rightarrow> call list \<Rightarrow> error + SlidingPuzzleGame" where
  "run s [] = Inr s"
| "run s (Generate d rnd now # cs) =
     ebind (generate_solvable_puzzle (s\<lparr>difficulty := d, size_n := difficulty_value d\<rparr>) rnd now)
       (\<lambda>s'. run s' cs)"
| "run s (Move row col # cs) = ebind (move_tile s row col) (\<lambda>(ok, s'). run s' cs)"

section \<open>Properties\<close>

subsection \<open>List access on a well-formed board\<close>

lemma ebind_Inl [simp]: "ebind (Inl e) f = Inl e"
  by (simp add: ebind_def)

lemma ebind_Inr [simp]: "ebind (Inr x) f = f x"
  by (simp add: ebind_def)

lemma ebind_eq_Inr: "ebind m f = Inr y \<longleftrightarrow> (\<exists>x. m = Inr x \<and> f x = Inr y)"
  by (cases m) simp_all

lemma py_index_in: "0 \<le> i \<Longrightarrow> i < int (length xs) \<Longrightarrow> py_index xs i = Inr (xs ! nat i)"
  by (simp add: py_index_def norm_index_def)

lemma py_store_in: "0 \<le> i \<Longrightarrow> i < int (length xs) \<Longrightarrow> py_store xs i v = Inr (xs[nat i := v])"
  by (simp add: py_store_def norm_index_def)

lemma grid_get_wf:
  assumes "wf_grid n g" "in_bounds n (r, c)"
  shows "grid_get g r c = Inr (cell g (r, c))"
proof -
  from assms have r: "0 \<le> r" "r < int (length g)" and c: "0 \<le> c" "c < int (length (g ! nat r))"
    by (auto simp: wf_grid_def in_bounds_def)
  then show ?thesis
    by (simp add: grid_get_def cell_def py_index_in)
qed

lemma grid_set_wf:
  assumes "wf_grid n g" "in_bounds n (r, c)"
  shows "grid_set g r c v = Inr (upd g (r, c) v)"
proof -
  from assms have r: "0 \<le> r" "r < int (length g)" and c: "0 \<le> c" "c < int (length (g ! nat r))"
    by (auto simp: wf_grid_def in_bounds_def)
  then show ?thesis
    by (simp add: grid_set_def upd_def py_index_in py_store_in)
qed

lemma wf_grid_upd:
  assumes "wf_grid n g"
  shows "wf_grid n (upd g p v)"
proof -
  have "int (length r) = n" if "r \<in> set (upd g p v)" for r
  proof -
    from that have "r = (g ! nat (fst p))[nat (snd p) := v] \<or> r \<in> set g"
      unfolding upd_def using set_update_subset_insert [of g] by auto
    then show ?thesis
    proof
      assume r: "r = (g ! nat (fst p))[nat (snd p) := v]"
      show ?thesis
      proof (cases "nat (fst p) < length g")
        case True
        then have "g ! nat (fst p) \<in> set g" by simp
        with assms r show ?thesis by (simp add: wf_grid_def)
      next
        case False
        then have "length g \<le> nat (fst p)" by simp
        then have "upd g p v = g" unfolding upd_def by (rule list_update_beyond)
        with that have "r \<in> set g" by simp
        with assms show ?thesis by (simp add: wf_grid_def)
      qed
    next
      assume "r \<in> set g"
      with assms show ?thesis by (simp add: wf_grid_def)
    qed
  qed
  with assms show ?thesis by (simp add: wf_grid_def upd_def)
qed

lemma cell_upd:
  assumes "wf_grid n g" "in_bounds n p" "in_bounds n q"
  shows "cell (upd g p v) q = (if q = p then v else cell g q)"
proof -
  obtain r c r' c' where p: "p = (r, c)" and q: "q = (r', c')"
    by (cases p, cases q) auto
  from assms have "nat r < length g" "nat c < length (g ! nat r)" "nat r' < length g"
    "nat c' < length (g ! nat r')" "0 \<le> r" "0 \<le> c" "0 \<le> r'" "0 \<le> c'"
    unfolding p q by (auto simp: wf_grid_def in_bounds_def)
  then show ?thesis
    unfolding p q by (auto simp: cell_def upd_def nth_list_update)
qed

lemma set_range_py: "set (range_py n) = {i. 0 \<le> i \<and> i < n}"
proof -
  have "i \<in> int ` {0..<nat n}" if "0 \<le> i" "i < n" for i
    using that by (intro image_eqI [where x = "nat i"]) auto
  then show ?thesis by (auto simp: range_py_def)
qed

lemma set_cells: "set (cells n) = {p. in_bounds n p}"
  by (auto simp: cells_def set_range_py in_bounds_def)

lemma distinct_cells: "distinct (cells n)"
  by (simp add: cells_def range_py_def distinct_product distinct_map inj_on_def)

subsection \<open>Moves\<close>

lemma can_move_tile_wf:
  assumes "wf_grid (size_n s) (grid s)"
  shows "can_move_tile s row col =
     Inr (in_bounds (size_n s) (row, col) \<and> cell (grid s) (row, col) \<noteq> 0 \<and>
          \<bar>row - fst (blank_pos s)\<bar> + \<bar>col - snd (blank_pos s)\<bar> = 1)"
proof (cases "in_bounds (size_n s) (row, col)")
  case False
  then show ?thesis by (auto simp: can_move_tile_def in_bounds_def)
next
  case True
  then have b: "0 \<le> row \<and> row < size_n s \<and> 0 \<le> col \<and> col < size_n s"
    by (simp add: in_bounds_def)
  have "(\<bar>row - br\<bar> = 1 \<and> \<bar>col - bc\<bar> = 0 \<or> \<bar>row - br\<bar> = 0 \<and> \<bar>col - bc\<bar> = 1)
      = (\<bar>row - br\<bar> + \<bar>col - bc\<bar> = 1)" for br bc :: int
    by arith
  with True b show ?thesis
    by (auto simp: can_move_tile_def grid_get_wf [OF assms True] split_beta)
qed

lemma wf_grid_test_3:
  "wf_grid 3 [[a1, a2, a3], [b1, b2, b3], [c1, c2, c3]]"
  by (simp add: wf_grid_def)

lemma move_tile_moves:
  assumes "move_tile s row col = Inr (b, s')"
  shows "moves (stats s') = moves (stats s) + (if b then 1 else 0)"
  using assms by (auto simp: move_tile_def ebind_eq_Inr split: if_splits)

lemma move_tile_accepted:
  assumes wf: "wf_grid (size_n s) (grid s)" and bp: "in_bounds (size_n s) (blank_pos s)"
    and ok: "can_move_tile s row col = Inr True"
  shows "move_tile s row col =
     Inr (True, s\<lparr>grid := upd (upd (grid s) (blank_pos s) (cell (grid s) (row, col))) (row, col) 0,
                  blank_pos := (row, col),
                  stats := (stats s)\<lparr>moves := moves (stats s) + 1\<rparr>\<rparr>)"
proof -
  from ok wf have rc: "in_bounds (size_n s) (row, col)"
    by (simp add: can_move_tile_wf)
  have 1: "grid_set (grid s) (fst (blank_pos s)) (snd (blank_pos s)) v = Inr (upd (grid s) (blank_pos s) v)" for v
    using grid_set_wf [OF wf, of "fst (blank_pos s)" "snd (blank_pos s)"] bp by simp
  show ?thesis
    by (simp add: move_tile_def ok grid_get_wf [OF wf rc] 1 grid_set_wf [OF wf_grid_upd [OF wf] rc])
qed

lemma grid_eqI:
  assumes "wf_grid n g" "wf_grid n g'" and eq: "\<And>p. in_bounds n p \<Longrightarrow> cell g p = cell g' p"
  shows "g = g'"
proof (rule nth_equalityI)
  show len: "length g = length g'"
    using assms(1,2) by (simp add: wf_grid_def)
  fix i assume i: "i < length g"
  with len assms(1,2) have li: "int (length (g ! i)) = n" "int (length (g' ! i)) = n"
    by (auto simp: wf_grid_def)
  show "g ! i = g' ! i"
  proof (rule nth_equalityI)
    show "length (g ! i) = length (g' ! i)" using li by linarith
    fix j assume j: "j < length (g ! i)"
    with i li assms(1) have "in_bounds n (int i, int j)"
      by (auto simp: in_bounds_def wf_grid_def)
    from eq [OF this] show "g ! i ! j = g' ! i ! j"
      by (simp add: cell_def)
  qed
qed

lemma move_tile_undo:
  assumes wf: "wf_grid (size_n s) (grid s)" and bp: "in_bounds (size_n s) (blank_pos s)"
    and z: "cell (grid s) (blank_pos s) = 0"
    and mv: "move_tile s row col = Inr (True, s1)"
  shows "move_tile s1 (fst (blank_pos s)) (snd (blank_pos s)) =
     Inr (True, s\<lparr>stats := (stats s)\<lparr>moves := moves (stats s) + 2\<rparr>\<rparr>)"
proof -
  let ?n = "size_n s" and ?g = "grid s" and ?b = "blank_pos s"
  let ?v = "cell ?g (row, col)"
  let ?gb = "upd (upd ?g ?b ?v) (row, col) 0"
  from mv have ok: "can_move_tile s row col = Inr True"
    by (auto simp: move_tile_def ebind_eq_Inr split: if_splits)
  then have rc: "in_bounds ?n (row, col)" and v: "?v \<noteq> 0"
    and adj: "\<bar>row - fst ?b\<bar> + \<bar>col - snd ?b\<bar> = 1"
    by (simp_all add: can_move_tile_wf [OF wf])
  from adj have ne: "?b \<noteq> (row, col)" by auto
  from mv have s1: "s1 = s\<lparr>grid := ?gb, blank_pos := (row, col),
                  stats := (stats s)\<lparr>moves := moves (stats s) + 1\<rparr>\<rparr>"
    by (simp add: move_tile_accepted [OF wf bp ok])
  have wf0: "wf_grid ?n (upd ?g ?b ?v)" by (rule wf_grid_upd [OF wf])
  have wf1: "wf_grid ?n ?gb" by (rule wf_grid_upd [OF wf0])
  have c1: "cell ?gb q = (if q = (row, col) then 0 else if q = ?b then ?v else cell ?g q)"
    if "in_bounds ?n q" for q
    using that by (simp add: cell_upd [OF wf0 rc] cell_upd [OF wf bp])
  have cb: "cell ?gb ?b = ?v" using c1 [OF bp] ne by simp
  have ok1: "can_move_tile s1 (fst ?b) (snd ?b) = Inr True"
    using wf1 bp v adj cb by (simp add: can_move_tile_wf s1 abs_minus_commute)
  let ?gc = "upd (upd ?gb (row, col) ?v) ?b 0"
  have wf2a: "wf_grid ?n (upd ?gb (row, col) ?v)" by (rule wf_grid_upd [OF wf1])
  have wf2: "wf_grid ?n ?gc" by (rule wf_grid_upd [OF wf2a])
  have "?gc = ?g"
  proof (rule grid_eqI [OF wf2 wf])
    fix q assume q: "in_bounds ?n q"
    show "cell ?gc q = cell ?g q"
      using z by (auto simp: cell_upd [OF wf2a bp q] cell_upd [OF wf1 rc q] c1 [OF q])
  qed
  moreover have "move_tile s1 (fst ?b) (snd ?b) =
      Inr (True, s1\<lparr>grid := upd (upd (grid s1) (blank_pos s1) (cell (grid s1) ?b)) ?b 0,
                  blank_pos := ?b,
                  stats := (stats s1)\<lparr>moves := moves (stats s1) + 1\<rparr>\<rparr>)"
    using move_tile_accepted [of s1 "fst ?b" "snd ?b"] wf1 rc ok1 by (simp add: s1)
  ultimately show ?thesis
    by (simp add: s1 cb)
qed

subsection \<open>Solved boards\<close>

lemma product_snoc: "List.product (xs @ [x]) ys = List.product xs ys @ map (Pair x) ys"
  by (induction xs) simp_all

lemma expected_product:
  "map (\<lambda>p. fst p * int m + snd p + 1) (List.product (map int [0..<k]) (map int [0..<m])) =
   map (\<lambda>i. int i + 1) [0..<k * m]"
proof (induction k)
  case 0
  show ?case by simp
next
  case (Suc k)
  have "map (\<lambda>i. int i + 1) [k * m..<k * m + m] = map (\<lambda>i. int i + 1) (map (\<lambda>i. i + k * m) [0..<m])"
    by (simp only: map_add_upt add.commute [of m])
  also have "\<dots> = map (\<lambda>c. int k * int m + int c + 1) [0..<m]"
    by (simp add: o_def add.commute)
  finally have row: "map (\<lambda>c. int k * int m + int c + 1) [0..<m] = map (\<lambda>i. int i + 1) [k * m..<k * m + m]"
    by simp
  have "[0..<Suc k * m] = [0..<k * m] @ [k * m..<k * m + m]"
    using upt_add_eq_append [of 0 "k * m" m] by (simp add: add.commute)
  with Suc row show ?case
    by (simp add: product_snoc o_def)
qed

lemma expected_cells:
  "map (expected_at n) (cells n) = map (\<lambda>i. int i + 1) [0..<nat n * nat n]"
proof (cases "0 \<le> n")
  case True
  then have "int (nat n) = n" by simp
  with expected_product [of "nat n" "nat n"] show ?thesis
    by (simp add: cells_def range_py_def expected_at_def [abs_def])
next
  case False
  then show ?thesis by (simp add: cells_def range_py_def)
qed

lemma expected_at_le:
  assumes "in_bounds n p"
  shows "expected_at n p \<le> n * n"
proof -
  from assms have "fst p \<le> n - 1" "snd p \<le> n - 1" "0 \<le> n"
    by (auto simp: in_bounds_def)
  then have "fst p * n \<le> (n - 1) * n"
    by (intro mult_right_mono) auto
  with \<open>snd p \<le> n - 1\<close> show ?thesis
    by (simp add: expected_at_def algebra_simps)
qed

lemma is_solved_loop_wf:
  assumes "wf_grid n g" "\<forall>p \<in> set ps. in_bounds n p"
    and "map (expected_at n) ps = map (\<lambda>i. e + int i) [0..<length ps]"
  shows "is_solved_loop g n e ps =
     Inr (\<forall>p \<in> set ps. cell g p = (if p = (n - 1, n - 1) then 0 else expected_at n p))"
  using assms(2,3)
proof (induction ps arbitrary: e)
  case Nil
  show ?case by simp
next
  case (Cons p ps)
  obtain r c where p: "p = (r, c)" by (cases p)
  from Cons.prems(1) have ib: "in_bounds n (r, c)" and ibs: "\<forall>p \<in> set ps. in_bounds n p"
    by (simp_all add: p)
  have "[0..<length (p # ps)] = 0 # map Suc [0..<length ps]"
    by (simp add: upt_conv_Cons map_Suc_upt del: upt_Suc)
  with Cons.prems(2) have e: "expected_at n (r, c) = e"
    and es: "map (expected_at n) ps = map (\<lambda>i. (e + 1) + int i) [0..<length ps]"
    by (simp_all add: p o_def add.assoc del: upt_Suc)
  note get = grid_get_wf [OF assms(1) ib]
  show ?case
  proof (cases "r = n - 1 \<and> c = n - 1")
    case True
    then have rc: "r = n - 1" "c = n - 1" by simp_all
    have "expected_at n (r, c) = n * n" unfolding rc by (simp add: expected_at_def algebra_simps)
    with e have "e = n * n" by simp
    have "ps = []"
    proof (cases ps)
      case (Cons q qs)
      with es have "expected_at n q = e + 1" by (simp add: upt_conv_Cons del: upt_Suc)
      moreover from ibs Cons have "expected_at n q \<le> n * n" by (simp add: expected_at_le)
      ultimately show ?thesis using \<open>e = n * n\<close> by simp
    qed simp
    with True get show ?thesis by (simp add: p)
  next
    case False
    then have ne: "(r, c) \<noteq> (n - 1, n - 1)" by auto
    show ?thesis
      using False ne e Cons.IH [OF ibs es] by (auto simp: p get)
  qed
qed

lemma is_solved_wf:
  assumes "wf_grid (size_n s) (grid s)"
  shows "is_solved s =
     Inr (\<forall>p \<in> set (cells (size_n s)).
            cell (grid s) p = (if p = (size_n s - 1, size_n s - 1) then 0 else expected_at (size_n s) p))"
proof -
  have "length (cells n) = nat n * nat n" for n
    by (simp add: cells_def range_py_def)
  then have "map (expected_at (size_n s)) (cells (size_n s)) =
      map (\<lambda>i. 1 + int i) [0..<length (cells (size_n s))]"
    by (simp add: expected_cells add.commute)
  from is_solved_loop_wf [OF assms _ this] show ?thesis
    by (simp add: is_solved_def set_cells)
qed

lemma cells_3: "cells 3 = [(0,0),(0,1),(0,2),(1,0),(1,1),(1,2),(2,0),(2,1),(2,2)]"
  by code_simp

lemma is_solved_examples:
  "is_solved (test_game [[1,2,3],[4,5,6],[7,8,0]] (2, 2)) = Inr True"
  "is_solved (test_game [[1,2,3],[4,5,6],[7,0,8]] (2, 1)) = Inr False"
  by (simp_all add: is_solved_def test_game_def cells_3 grid_get_def py_index_def norm_index_def)

subsection \<open>Inversions and the solvability check\<close>

lemma fold_count:
  "fold (\<lambda>j (acc::int). if P j then acc + 1 else acc) js acc = acc + int (length (filter P js))"
  by (induction js arbitrary: acc) simp_all

lemma fold_add:
  "fold (\<lambda>i (acc::int). acc + f i) is acc = acc + sum_list (map f is)"
  by (induction "is" arbitrary: acc) simp_all

lemma count_inversions_sum:
  "count_inversions xs =
     (\<Sum>i\<leftarrow>[0..<length xs]. int (length (filter (\<lambda>j. xs ! i > xs ! j) [Suc i..<length xs])))"
  by (simp add: count_inversions_def fold_count fold_add)

lemma filter_nth_upt:
  "length (filter (\<lambda>j. P (xs ! j)) [0..<length xs]) = length (filter P xs)"
proof -
  have "filter P xs = filter P (map (nth xs) [0..<length xs])"
    by (simp add: map_nth)
  also have "length \<dots> = length (filter (\<lambda>j. P (xs ! j)) [0..<length xs])"
    by (simp add: filter_map o_def)
  finally show ?thesis by simp
qed

lemma filter_shift:
  "length (filter (\<lambda>j. P ((x # xs) ! j)) [Suc a..<Suc b]) = length (filter (\<lambda>j. P (xs ! j)) [a..<b])"
proof -
  have "[Suc a..<Suc b] = map Suc [a..<b]" by (simp only: map_Suc_upt)
  then show ?thesis by (simp add: filter_map o_def del: upt_Suc)
qed

lemma count_inversions_Cons:
  "count_inversions (x # xs) = int (length (filter (\<lambda>y. x > y) xs)) + count_inversions xs"
proof -
  have upt: "[0..<length (x # xs)] = 0 # map Suc [0..<length xs]"
    by (simp add: upt_conv_Cons map_Suc_upt del: upt_Suc)
  have head: "length (filter (\<lambda>j. x > (x # xs) ! j) [Suc 0..<Suc (length xs)]) = length (filter (\<lambda>y. x > y) xs)"
    using filter_shift [of "\<lambda>y. x > y" x xs 0 "length xs"] filter_nth_upt [of "\<lambda>y. x > y" xs]
    by simp
  have tail: "length (filter (\<lambda>j. xs ! i > (x # xs) ! j) [Suc (Suc i)..<Suc (length xs)]) =
      length (filter (\<lambda>j. xs ! i > xs ! j) [Suc i..<length xs])" for i
    using filter_shift [of "\<lambda>y. xs ! i > y" x xs "Suc i" "length xs"] by simp
  show ?thesis
    unfolding count_inversions_sum upt
    by (simp add: head tail o_def del: upt_Suc)
qed

lemma count_inversions_inv_count: "count_inversions xs = int (inv_count xs)"
proof (induction xs)
  case Nil
  show ?case by (simp add: count_inversions_def)
next
  case (Cons x xs)
  then show ?case by (simp add: count_inversions_Cons)
qed

lemma finite_inversion_pairs: "finite (inversion_pairs xs)"
proof (rule finite_subset)
  show "inversion_pairs xs \<subseteq> {..<length xs} \<times> {..<length xs}"
    by (auto simp: inversion_pairs_def)
qed simp

lemma inversion_pairs_Cons:
  "inversion_pairs (x # xs) =
     (\<lambda>j. (0, Suc j)) ` {j. j < length xs \<and> x > xs ! j} \<union>
     (\<lambda>(i, j). (Suc i, Suc j)) ` inversion_pairs xs"
proof -
  have "z \<in> inversion_pairs (x # xs) \<longleftrightarrow>
      z \<in> (\<lambda>j. (0, Suc j)) ` {j. j < length xs \<and> x > xs ! j} \<union>
          (\<lambda>(i, j). (Suc i, Suc j)) ` inversion_pairs xs" for z
    by (cases z) (auto simp: inversion_pairs_def nth_Cons image_iff split: nat.splits)
  then show ?thesis by blast
qed

lemma card_smaller: "card {j. j < length xs \<and> P (xs ! j)} = length (filter P xs)"
proof -
  have "{j. j < length xs \<and> P (xs ! j)} = set (filter (\<lambda>j. P (xs ! j)) [0..<length xs])"
    by auto
  moreover have "card (set (filter (\<lambda>j. P (xs ! j)) [0..<length xs])) =
      length (filter (\<lambda>j. P (xs ! j)) [0..<length xs])"
    by (rule distinct_card) simp
  ultimately show ?thesis by (simp only: filter_nth_upt)
qed

lemma card_inversion_pairs: "card (inversion_pairs xs) = inv_count xs"
proof (induction xs)
  case Nil
  show ?case by (simp add: inversion_pairs_def)
next
  case (Cons x xs)
  let ?A = "(\<lambda>j. (0, Suc j)) ` {j. j < length xs \<and> x > xs ! j}"
  let ?B = "(\<lambda>(i, j). (Suc i, Suc j)) ` inversion_pairs xs"
  have "card ?A = length (filter (\<lambda>y. x > y) xs)"
    using card_smaller [of xs "\<lambda>y. x > y"] by (simp add: card_image inj_on_def)
  moreover have "card ?B = inv_count xs"
    using Cons.IH by (simp add: card_image inj_on_def split_beta prod_eq_iff)
  moreover have "?A \<inter> ?B = {}" by auto
  moreover have "finite ?A" "finite ?B"
    by (simp_all add: finite_inversion_pairs)
  ultimately show ?case
    by (simp add: inversion_pairs_Cons card_Un_disjoint)
qed

lemma count_inversions_card: "count_inversions xs = int (card (inversion_pairs xs))"
  by (simp add: count_inversions_inv_count card_inversion_pairs)

lemma find_blank_in_wf:
  assumes "wf_grid n g" "\<forall>p \<in> set ps. in_bounds n p"
  shows "find_blank_in g ps =
     Inr (case List.find (\<lambda>p. cell g p = 0) ps of None \<Rightarrow> (0, 0) | Some p \<Rightarrow> p)"
  using assms(2)
proof (induction ps)
  case Nil
  show ?case by simp
next
  case (Cons p ps)
  obtain r c where p: "p = (r, c)" by (cases p)
  with Cons.prems have "in_bounds n (r, c)" by simp
  from grid_get_wf [OF assms(1) this] Cons show ?case
    by (simp add: p)
qed

lemma find_blank_position_unique:
  assumes "wf_grid (size_n s) (grid s)" "in_bounds (size_n s) b" "cell (grid s) b = 0"
    and "\<forall>q. in_bounds (size_n s) q \<and> cell (grid s) q = 0 \<longrightarrow> q = b"
  shows "find_blank_position s = Inr b"
proof -
  from assms(2,3) have "\<exists>p \<in> set (cells (size_n s)). cell (grid s) p = 0"
    by (intro bexI [of _ b]) (simp_all add: set_cells)
  then have "List.find (\<lambda>p. cell (grid s) p = 0) (cells (size_n s)) \<noteq> None"
    unfolding find_None_iff by blast
  then obtain p where "List.find (\<lambda>p. cell (grid s) p = 0) (cells (size_n s)) = Some p"
    by blast
  moreover from this have "p \<in> set (cells (size_n s))" "cell (grid s) p = 0"
    by (auto simp: find_Some_iff)
  with assms(4) have "p = b" unfolding set_cells by blast
  ultimately show ?thesis
    using find_blank_in_wf [OF assms(1), of "cells (size_n s)"]
    by (simp add: find_blank_position_def set_cells)
qed

lemma mod2_parity:
  "(int k mod 2 = 0) = even k" "((int k + d) mod 2 = 1) = odd (int k + d)"
  by presburger+

lemma check_solvability_odd:
  "size_n s mod 2 = 1 \<Longrightarrow>
     check_solvability s = Inr (even (card (inversion_pairs (flat_puzzle_of (grid s)))))"
  by (simp add: check_solvability_def count_inversions_card Let_def mod2_parity)

lemma check_solvability_even:
  assumes "size_n s mod 2 \<noteq> 1" "find_blank_position s = Inr (br, bc)"
  shows "check_solvability s =
     Inr (odd (int (card (inversion_pairs (flat_puzzle_of (grid s)))) + (size_n s - br)))"
  using assms by (simp add: check_solvability_def count_inversions_card Let_def mod2_parity)

lemma check_solvability_examples:
  "check_solvability (test_game [[1,2,3],[4,5,6],[7,8,0]] (2, 2)) = Inr True"
  "check_solvability (test_game [[1,2,3],[4,5,6],[8,7,0]] (2, 2)) = Inr False"
  by (simp_all add: check_solvability_def test_game_def flat_puzzle_of_def
      count_inversions_inv_count)

lemma cells_4:
  "cells 4 = [(0,0),(0,1),(0,2),(0,3),(1,0),(1,1),(1,2),(1,3),
              (2,0),(2,1),(2,2),(2,3),(3,0),(3,1),(3,2),(3,3)]"
  by code_simp

subsection \<open>Exchanging two cells\<close>

lemma map_product:
  "map f (List.product xs ys) = concat (map (\<lambda>x. map (\<lambda>y. f (x, y)) ys) xs)"
  by (induction xs) (simp_all add: o_def)

lemma concat_cells:
  assumes "wf_grid n g"
  shows "concat g = map (cell g) (cells n)"
proof -
  let ?m = "nat n"
  from assms have len: "length g = ?m" and rows: "\<forall>r \<in> set g. length r = ?m"
    by (auto simp: wf_grid_def)
  have row: "map (\<lambda>c. g ! r ! c) [0..<?m] = g ! r" if "r < ?m" for r
  proof -
    from that len rows have "length (g ! r) = ?m" by simp
    then show ?thesis using map_nth [of "g ! r"] by simp
  qed
  have "map (cell g) (cells n) = concat (map (\<lambda>r. map (\<lambda>c. g ! r ! c) [0..<?m]) [0..<?m])"
    by (simp add: cells_def range_py_def map_product cell_def o_def)
  also have "map (\<lambda>r. map (\<lambda>c. g ! r ! c) [0..<?m]) [0..<?m] = map (\<lambda>r. g ! r) [0..<?m]"
    by (rule map_cong) (simp_all add: row)
  also have "\<dots> = g"
    using map_nth [of g] len by simp
  finally show ?thesis by simp
qed

lemma map_swapped_split:
  assumes "distinct (xs @ a # ys @ b # zs)"
  shows "map (swapped f a b) (xs @ a # ys @ b # zs) = map f xs @ f b # map f ys @ f a # map f zs"
    and "map (swapped f b a) (xs @ a # ys @ b # zs) = map f xs @ f b # map f ys @ f a # map f zs"
proof -
  have rest: "map (swapped f a b) l = map f l" "map (swapped f b a) l = map f l"
    if "a \<notin> set l" "b \<notin> set l" for l
    using that by (auto simp: swapped_def)
  from assms have nxs: "a \<notin> set xs" "b \<notin> set xs" and nys: "a \<notin> set ys" "b \<notin> set ys"
    and nzs: "a \<notin> set zs" "b \<notin> set zs" and ne: "a \<noteq> b"
    by auto
  from ne have ends: "swapped f a b a = f b" "swapped f a b b = f a"
    "swapped f b a a = f b" "swapped f b a b = f a"
    by (simp_all add: swapped_def)
  show "map (swapped f a b) (xs @ a # ys @ b # zs) = map f xs @ f b # map f ys @ f a # map f zs"
    by (simp add: rest(1) [OF nxs] rest(1) [OF nys] rest(1) [OF nzs] ends)
  show "map (swapped f b a) (xs @ a # ys @ b # zs) = map f xs @ f b # map f ys @ f a # map f zs"
    by (simp add: rest(2) [OF nxs] rest(2) [OF nys] rest(2) [OF nzs] ends)
qed

lemma mset_map_swapped:
  assumes "distinct ps" "a \<in> set ps" "b \<in> set ps"
  shows "mset (map (swapped f a b) ps) = mset (map f ps)"
proof (cases "a = b")
  case True
  then have "swapped f a b = f" by (auto simp: swapped_def)
  then show ?thesis by simp
next
  case False
  from split_list [OF assms(2)] obtain xs r where ps: "ps = xs @ a # r" by blast
  with assms(3) False have "b \<in> set xs \<or> b \<in> set r" by auto
  then show ?thesis
  proof
    assume "b \<in> set r"
    from split_list [OF this] obtain ys zs where "r = ys @ b # zs" by blast
    with ps have ps': "ps = xs @ a # ys @ b # zs" by simp
    have "mset (map (swapped f a b) ps) = mset (map f xs @ f b # map f ys @ f a # map f zs)"
      unfolding ps' by (simp only: map_swapped_split(1) [OF assms(1) [unfolded ps']])
    also have "\<dots> = mset (map f ps)" unfolding ps' by simp
    finally show ?thesis .
  next
    assume "b \<in> set xs"
    from split_list [OF this] obtain ys zs where "xs = ys @ b # zs" by blast
    with ps have ps': "ps = ys @ b # zs @ a # r" by simp
    have "mset (map (swapped f a b) ps) = mset (map f ys @ f a # map f zs @ f b # map f r)"
      unfolding ps' by (simp only: map_swapped_split(2) [OF assms(1) [unfolded ps']])
    also have "\<dots> = mset (map f ps)" unfolding ps' by simp
    finally show ?thesis .
  qed
qed

text \<open>A board whose cells are those of \<open>g\<close> with two of them exchanged.\<close>

lemma concat_swapped:
  assumes "wf_grid n g'" and "\<And>q. in_bounds n q \<Longrightarrow> cell g' q = swapped f a b q"
  shows "concat g' = map (swapped f a b) (cells n)"
proof -
  have "map (cell g') (cells n) = map (swapped f a b) (cells n)"
    by (rule map_cong) (simp_all add: set_cells assms(2))
  then show ?thesis by (simp only: concat_cells [OF assms(1)])
qed

lemma mset_concat_swapped:
  assumes "wf_grid n g" "wf_grid n g'" "in_bounds n a" "in_bounds n b"
    and "\<And>q. in_bounds n q \<Longrightarrow> cell g' q = swapped (cell g) a b q"
  shows "mset (concat g') = mset (concat g)"
proof -
  have "mset (concat g') = mset (map (swapped (cell g) a b) (cells n))"
    by (simp only: concat_swapped [OF assms(2,5)])
  also have "\<dots> = mset (map (cell g) (cells n))"
    by (rule mset_map_swapped [OF distinct_cells]) (simp_all add: set_cells assms(3,4))
  also have "\<dots> = mset (concat g)"
    by (simp only: concat_cells [OF assms(1)])
  finally show ?thesis .
qed

text \<open>The step that \<open>_shuffle_puzzle\<close> and \<open>move_tile\<close> share: the value of a cell
  goes to the blank cell and the cell becomes the blank.\<close>

lemma slide_cells:
  assumes wf: "wf_grid n g" and b: "in_bounds n b" and p: "in_bounds n p"
    and z: "cell g b = 0"
  defines "g' \<equiv> upd (upd g b (cell g p)) p 0"
  shows "wf_grid n g'" and "cell g' p = 0" and "mset (concat g') = mset (concat g)"
    and "in_bounds n q \<Longrightarrow> cell g' q = swapped (cell g) b p q"
proof -
  have wfa: "wf_grid n (upd g b (cell g p))" by (rule wf_grid_upd [OF wf])
  show wf': "wf_grid n g'" unfolding g'_def by (rule wf_grid_upd [OF wfa])
  have c: "cell g' q = swapped (cell g) b p q" if "in_bounds n q" for q
  proof -
    have "cell g' q = (if q = p then 0 else cell (upd g b (cell g p)) q)"
      unfolding g'_def by (rule cell_upd [OF wfa p that])
    moreover have "cell (upd g b (cell g p)) q = (if q = b then cell g p else cell g q)"
      by (rule cell_upd [OF wf b that])
    ultimately have "cell g' q = (if q = p then 0 else if q = b then cell g p else cell g q)"
      by (simp only:)
    with z show ?thesis by (auto simp: swapped_def)
  qed
  from c [OF p] z show "cell g' p = 0" by (simp add: swapped_def)
  from mset_concat_swapped [OF wf wf' b p c] show "mset (concat g') = mset (concat g)" .
  show "in_bounds n q \<Longrightarrow> cell g' q = swapped (cell g) b p q" by (rule c)
qed

lemma try_directions_inv:
  assumes "wf_grid n g" "in_bounds n b" "cell g b = 0"
  shows "\<exists>g' b'. try_directions n g b ds = Inr (g', b') \<and> wf_grid n g' \<and> in_bounds n b' \<and>
           cell g' b' = 0 \<and> mset (concat g') = mset (concat g)"
proof (induction ds)
  case Nil
  obtain br bc where "b = (br, bc)" by (cases b)
  with assms show ?case by simp
next
  case (Cons d ds)
  obtain br bc where b: "b = (br, bc)" by (cases b)
  obtain dr dc where d: "d = (dr, dc)" by (cases d)
  show ?case
  proof (cases "in_bounds n (br + dr, bc + dc)")
    case False
    then have nc: "(0 \<le> br + dr \<and> br + dr < n \<and> 0 \<le> bc + dc \<and> bc + dc < n) = False"
      by (simp add: in_bounds_def)
    have "try_directions n g b (d # ds) = try_directions n g b ds"
      by (simp only: b d try_directions.simps Let_def nc if_False)
    with Cons show ?thesis by simp
  next
    case True
    let ?p = "(br + dr, bc + dc)"
    let ?g' = "upd (upd g b (cell g ?p)) ?p 0"
    have wfa: "wf_grid n (upd g b (cell g ?p))" by (rule wf_grid_upd [OF assms(1)])
    have "try_directions n g b (d # ds) = Inr (?g', ?p)"
      using True grid_get_wf [OF assms(1) True] grid_set_wf [OF assms(1) assms(2) [unfolded b]]
        grid_set_wf [OF wfa True]
      by (simp add: b d in_bounds_def Let_def)
    with slide_cells(1-3) [OF assms(1,2) True assms(3)] True show ?thesis
      by simp
  qed
qed

lemma shuffle_loop_inv:
  assumes "wf_grid n g" "in_bounds n b" "cell g b = 0"
  shows "\<exists>g' b'. shuffle_loop n rnd ks (g, b) = Inr (g', b') \<and> wf_grid n g' \<and> in_bounds n b' \<and>
           cell g' b' = 0 \<and> mset (concat g') = mset (concat g)"
  using assms
proof (induction ks arbitrary: g b)
  case Nil
  then show ?case by simp
next
  case (Cons k ks)
  from try_directions_inv [OF Cons.prems, of "rnd k"] obtain g1 b1
    where 1: "try_directions n g b (rnd k) = Inr (g1, b1)" "wf_grid n g1" "in_bounds n b1"
      "cell g1 b1 = 0" "mset (concat g1) = mset (concat g)"
    by blast
  from Cons.IH [OF 1(2-4)] obtain g' b'
    where 2: "shuffle_loop n rnd ks (g1, b1) = Inr (g', b')" "wf_grid n g'" "in_bounds n b'"
      "cell g' b' = 0" "mset (concat g') = mset (concat g1)"
    by blast
  from 1 2 show ?case by simp
qed

lemma shuffle_puzzle_inv:
  assumes "wf_grid (size_n s) (grid s)" "in_bounds (size_n s) (blank_pos s)"
    "cell (grid s) (blank_pos s) = 0"
  shows "\<exists>g'. shuffle_puzzle s rnd = Inr g' \<and> wf_grid (size_n s) g' \<and>
           mset (concat g') = mset (concat (grid s))"
proof -
  from shuffle_loop_inv [OF assms, of rnd "[0..<nat (size_n s * size_n s * 10)]"]
  obtain g' b' where "shuffle_loop (size_n s) rnd [0..<nat (size_n s * size_n s * 10)]
      (grid s, blank_pos s) = Inr (g', b')" "wf_grid (size_n s) g'"
      "mset (concat g') = mset (concat (grid s))"
    by blast
  then show ?thesis by (simp add: shuffle_puzzle_def)
qed

lemma wf_solved_rows: "0 \<le> n \<Longrightarrow> wf_grid n (solved_rows n)"
  by (auto simp: wf_grid_def solved_rows_def range_py_def)

lemma concat_solved_rows: "concat (solved_rows n) = map (expected_at n) (cells n)"
  by (simp add: solved_rows_def cells_def map_product expected_at_def)

lemma mset_map_upd:
  assumes "distinct ps" "a \<in> set ps"
  shows "mset (map (f(a := v)) ps) = add_mset v (mset (map f ps) - {#f a#})"
proof -
  from split_list [OF assms(2)] obtain xs ys where ps: "ps = xs @ a # ys" by blast
  with assms(1) have "a \<notin> set xs" "a \<notin> set ys" by auto
  then have "map (f(a := v)) (xs @ a # ys) = map f xs @ v # map f ys"
    by simp
  then have "mset (map (f(a := v)) ps) = mset (map f xs @ v # map f ys)"
    by (simp only: ps)
  also have "\<dots> = add_mset v (mset (map f ps) - {#f a#})"
    by (simp add: ps)
  finally show ?thesis .
qed

lemma mset_shifted_upt:
  "add_mset 0 (mset (map (\<lambda>i. int i + 1) [0..<Suc k]) - {#int (Suc k)#}) = mset (map int [0..<Suc k])"
proof -
  have "mset (map (\<lambda>i. int i + 1) [0..<Suc k]) - {#int (Suc k)#} = mset (map (\<lambda>i. int i + 1) [0..<k])"
    by (simp add: add.commute)
  also have "map (\<lambda>i. int i + 1) [0..<k] = map int (map Suc [0..<k])"
    by (simp add: o_def add.commute)
  also have "map Suc [0..<k] = [Suc 0..<Suc k]" by (simp only: map_Suc_upt)
  finally have "add_mset 0 (mset (map (\<lambda>i. int i + 1) [0..<Suc k]) - {#int (Suc k)#}) =
      mset (map int (0 # [Suc 0..<Suc k]))"
    by simp
  also have "0 # [Suc 0..<Suc k] = [0..<Suc k]" by (simp add: upt_rec [of 0] del: upt_Suc)
  finally show ?thesis .
qed

lemma initial_board:
  assumes "1 \<le> n"
  defines "g \<equiv> upd (solved_rows n) (n - 1, n - 1) 0"
  shows "grid_set (solved_rows n) (n - 1) (n - 1) 0 = Inr g" and "board_inv n g"
    and "in_bounds n (n - 1, n - 1)" and "cell g (n - 1, n - 1) = 0"
proof -
  let ?l = "(n - 1, n - 1)"
  from assms(1) have wf0: "wf_grid n (solved_rows n)" by (simp add: wf_solved_rows)
  from assms(1) show ib: "in_bounds n ?l" by (simp add: in_bounds_def)
  show "grid_set (solved_rows n) (n - 1) (n - 1) 0 = Inr g"
    unfolding g_def by (rule grid_set_wf [OF wf0 ib])
  have wf: "wf_grid n g" unfolding g_def by (rule wf_grid_upd [OF wf0])
  have c: "cell g q = ((cell (solved_rows n))(?l := 0)) q" if "in_bounds n q" for q
    unfolding g_def using cell_upd [OF wf0 ib that, of 0] by simp
  from c [OF ib] show "cell g ?l = 0" by simp
  have "map (cell g) (cells n) = map ((cell (solved_rows n))(?l := 0)) (cells n)"
    by (rule map_cong) (simp_all add: set_cells c)
  then have "mset (concat g) = mset (map ((cell (solved_rows n))(?l := 0)) (cells n))"
    by (simp only: concat_cells [OF wf])
  also have "\<dots> = add_mset 0 (mset (map (cell (solved_rows n)) (cells n)) - {#cell (solved_rows n) ?l#})"
    by (rule mset_map_upd [OF distinct_cells]) (simp add: set_cells ib)
  also have "map (cell (solved_rows n)) (cells n) = map (\<lambda>i. int i + 1) [0..<nat n * nat n]"
    using concat_cells [OF wf0] by (simp only: concat_solved_rows expected_cells)
  also have "cell (solved_rows n) ?l = n * n"
  proof -
    have "map (cell (solved_rows n)) (cells n) = map (expected_at n) (cells n)"
      using concat_cells [OF wf0] by (simp only: concat_solved_rows)
    moreover have "?l \<in> set (cells n)" by (simp add: set_cells ib)
    ultimately have "cell (solved_rows n) ?l = expected_at n ?l" by (simp only: map_eq_conv)
    then show ?thesis by (simp add: expected_at_def algebra_simps)
  qed
  finally have m: "mset (concat g) = add_mset 0 (mset (map (\<lambda>i. int i + 1) [0..<nat n * nat n]) - {#n * n#})" .
  from assms(1) obtain k where k: "nat n * nat n = Suc k"
    by (cases "nat n * nat n") auto
  from assms(1) have "int (nat n * nat n) = n * n" by simp
  with k have nn: "n * n = int (Suc k)" by simp
  have "nat (n * n) = Suc k" unfolding nn by simp
  with m mset_shifted_upt [of k] have "mset (concat g) = mset (range_py (n * n))"
    unfolding range_py_def k nn by simp
  with wf show "board_inv n g" by (simp add: board_inv_def)
qed

lemma find_blank_position_total:
  assumes "wf_grid (size_n s) (grid s)" "0 \<in> set (concat (grid s))"
  shows "\<exists>b. find_blank_position s = Inr b \<and> in_bounds (size_n s) b \<and> cell (grid s) b = 0"
proof -
  from assms(2) have "\<exists>p \<in> set (cells (size_n s)). cell (grid s) p = 0"
    unfolding concat_cells [OF assms(1)] by auto
  then have "List.find (\<lambda>p. cell (grid s) p = 0) (cells (size_n s)) \<noteq> None"
    unfolding find_None_iff by blast
  then obtain p where p: "List.find (\<lambda>p. cell (grid s) p = 0) (cells (size_n s)) = Some p"
    by blast
  then have "p \<in> set (cells (size_n s))" "cell (grid s) p = 0"
    by (auto simp: find_Some_iff)
  with p find_blank_in_wf [OF assms(1), of "cells (size_n s)"] show ?thesis
    by (simp add: find_blank_position_def set_cells)
qed

lemma board_inv_zero:
  assumes "board_inv n g" "1 \<le> n"
  shows "0 \<in> set (concat g)"
proof -
  from assms(2) have "0 < n * n" by (simp add: zero_less_mult_iff)
  then have "0 \<in> set (range_py (n * n))" by (simp add: set_range_py)
  with assms(1) show ?thesis
    unfolding board_inv_def by (metis set_mset_mset)
qed

lemma non_blank_tiles_wf:
  assumes "wf_grid n g" "\<forall>p \<in> set ps. in_bounds n p"
  shows "non_blank_tiles g ps acc = Inr (acc @ filter (\<lambda>p. cell g p \<noteq> 0) ps)"
  using assms(2)
proof (induction ps arbitrary: acc)
  case Nil
  show ?case by simp
next
  case (Cons p ps)
  obtain r c where p: "p = (r, c)" by (cases p)
  with Cons.prems have "in_bounds n (r, c)" by simp
  from grid_get_wf [OF assms(1) this] Cons show ?case
    by (simp add: p)
qed

lemma first_two_split:
  assumes "filter P ps = p1 # p2 # rest"
  shows "\<exists>us ws ts. ps = us @ p1 # ws @ p2 # ts \<and> (\<forall>u \<in> set us. \<not> P u) \<and>
           (\<forall>w \<in> set ws. \<not> P w) \<and> P p1 \<and> P p2 \<and> rest = filter P ts"
proof -
  from assms obtain us vs where 1: "ps = us @ p1 # vs" "\<forall>u \<in> set us. \<not> P u" "P p1"
    "p2 # rest = filter P vs"
    unfolding filter_eq_Cons_iff by blast
  from 1(4) [symmetric] obtain ws ts where 2: "vs = ws @ p2 # ts" "\<forall>w \<in> set ws. \<not> P w" "P p2"
    "rest = filter P ts"
    unfolding filter_eq_Cons_iff by blast
  from 1 2 show ?thesis by blast
qed

lemma swap_first_two:
  assumes wf: "wf_grid n g" and nb: "filter (\<lambda>p. cell g p \<noteq> 0) (cells n) = p1 # p2 # rest"
  defines "g' \<equiv> upd (upd g p1 (cell g p2)) p2 (cell g p1)"
  shows "wf_grid n g'" and "in_bounds n p1" and "in_bounds n p2" and "p1 \<noteq> p2"
    and "cell g p1 \<noteq> 0" and "cell g p2 \<noteq> 0"
    and "\<And>q. in_bounds n q \<Longrightarrow> cell g' q = swapped (cell g) p1 p2 q"
    and "mset (concat g') = mset (concat g)"
    and "\<exists>R. flat_puzzle_of g = cell g p1 # cell g p2 # R \<and>
              flat_puzzle_of g' = cell g p2 # cell g p1 # R"
proof -
  let ?f = "cell g"
  from first_two_split [OF nb] obtain us ws ts
    where cs: "cells n = us @ p1 # ws @ p2 # ts" and us: "\<forall>u \<in> set us. ?f u = 0"
      and ws: "\<forall>w \<in> set ws. ?f w = 0" and nz: "?f p1 \<noteq> 0" "?f p2 \<noteq> 0"
    by auto
  from nz show "cell g p1 \<noteq> 0" "cell g p2 \<noteq> 0" .
  have d: "distinct (us @ p1 # ws @ p2 # ts)"
    using distinct_cells [of n] unfolding cs .
  then show ne: "p1 \<noteq> p2" by auto
  have "p1 \<in> set (cells n)" "p2 \<in> set (cells n)" unfolding cs by simp_all
  then show ib1: "in_bounds n p1" and ib2: "in_bounds n p2"
    by (simp_all add: set_cells)
  have wfa: "wf_grid n (upd g p1 (?f p2))" by (rule wf_grid_upd [OF wf])
  show wf': "wf_grid n g'" unfolding g'_def by (rule wf_grid_upd [OF wfa])
  have c: "cell g' q = swapped ?f p1 p2 q" if "in_bounds n q" for q
  proof -
    have "cell g' q = (if q = p2 then ?f p1 else cell (upd g p1 (?f p2)) q)"
      unfolding g'_def by (rule cell_upd [OF wfa ib2 that])
    moreover have "cell (upd g p1 (?f p2)) q = (if q = p1 then ?f p2 else ?f q)"
      by (rule cell_upd [OF wf ib1 that])
    ultimately have "cell g' q = (if q = p2 then ?f p1 else if q = p1 then ?f p2 else ?f q)"
      by (simp only:)
    with ne show ?thesis by (auto simp: swapped_def)
  qed
  then show "\<And>q. in_bounds n q \<Longrightarrow> cell g' q = swapped (cell g) p1 p2 q" .
  from mset_concat_swapped [OF wf wf' ib1 ib2 c] show "mset (concat g') = mset (concat g)" .
  have z: "filter (\<lambda>v. v \<noteq> 0) (map ?f l) = []" if "\<forall>u \<in> set l. ?f u = 0" for l
    using that by (induction l) simp_all
  have "concat g = map ?f us @ ?f p1 # map ?f ws @ ?f p2 # map ?f ts"
    unfolding concat_cells [OF wf] cs by simp
  then have 1: "flat_puzzle_of g = ?f p1 # ?f p2 # filter (\<lambda>v. v \<noteq> 0) (map ?f ts)"
    unfolding flat_puzzle_of_def using nz by (simp add: z [OF us] z [OF ws])
  have "concat g' = map (swapped ?f p1 p2) (cells n)"
    by (rule concat_swapped [OF wf' c])
  also have "\<dots> = map ?f us @ ?f p2 # map ?f ws @ ?f p1 # map ?f ts"
    unfolding cs by (rule map_swapped_split(1) [OF d])
  finally have 2: "flat_puzzle_of g' = ?f p2 # ?f p1 # filter (\<lambda>v. v \<noteq> 0) (map ?f ts)"
    unfolding flat_puzzle_of_def using nz by (simp add: z [OF us] z [OF ws])
  from 1 2 show "\<exists>R. flat_puzzle_of g = cell g p1 # cell g p2 # R \<and>
              flat_puzzle_of g' = cell g p2 # cell g p1 # R"
    by blast
qed

lemma make_solvable_wf:
  assumes wf: "wf_grid (size_n s) (grid s)"
    and nb: "filter (\<lambda>p. cell (grid s) p \<noteq> 0) (cells (size_n s)) = p1 # p2 # rest"
  shows "make_solvable s =
     Inr (s\<lparr>grid := upd (upd (grid s) p1 (cell (grid s) p2)) p2 (cell (grid s) p1)\<rparr>)"
proof -
  obtain r1 c1 r2 c2 where p: "p1 = (r1, c1)" "p2 = (r2, c2)"
    by (cases p1, cases p2) auto
  note st = swap_first_two [OF wf nb]
  have wfa: "wf_grid (size_n s) (upd (grid s) p1 (cell (grid s) p2))"
    by (rule wf_grid_upd [OF wf])
  have "non_blank_tiles (grid s) (cells (size_n s)) [] = Inr (p1 # p2 # rest)"
    using non_blank_tiles_wf [OF wf, of "cells (size_n s)" "[]"] nb by (simp add: set_cells)
  then show ?thesis
    using grid_get_wf [OF wf st(2) [unfolded p]] grid_get_wf [OF wf st(3) [unfolded p]]
      grid_set_wf [OF wf st(2) [unfolded p]] grid_set_wf [OF wfa st(3) [unfolded p]]
    by (simp add: make_solvable_def p)
qed

lemma inv_count_swap:
  assumes "a \<noteq> b"
  shows "inv_count (b # a # R) = inv_count (a # b # R) + 1 \<or>
         inv_count (a # b # R) = inv_count (b # a # R) + 1"
  using assms by (cases "a < b") simp_all

lemma board_inv_distinct:
  assumes "board_inv n g"
  shows "distinct (concat g)"
proof -
  have "distinct (range_py (n * n))"
    by (simp add: range_py_def distinct_map)
  with assms show ?thesis
    unfolding board_inv_def using mset_eq_imp_distinct_iff by blast
qed

lemma find_blank_position_swap:
  assumes wf: "wf_grid (size_n s) (grid s)"
    and nb: "filter (\<lambda>p. cell (grid s) p \<noteq> 0) (cells (size_n s)) = p1 # p2 # rest"
  shows "find_blank_position
           (s\<lparr>grid := upd (upd (grid s) p1 (cell (grid s) p2)) p2 (cell (grid s) p1)\<rparr>) =
         find_blank_position s"
proof -
  let ?g' = "upd (upd (grid s) p1 (cell (grid s) p2)) p2 (cell (grid s) p1)"
  note st = swap_first_two [OF wf nb]
  have "(cell ?g' q = 0) = (cell (grid s) q = 0)" if "q \<in> set (cells (size_n s))" for q
    using that st(5,6) by (simp add: set_cells st(7) swapped_def)
  then have "List.find (\<lambda>p. cell ?g' p = 0) (cells (size_n s)) =
      List.find (\<lambda>p. cell (grid s) p = 0) (cells (size_n s))"
    by (intro find_cong) simp_all
  then show ?thesis
    using find_blank_in_wf [OF wf, of "cells (size_n s)"]
      find_blank_in_wf [OF st(1), of "cells (size_n s)"]
    by (simp add: find_blank_position_def set_cells)
qed

lemma nonblank_filter:
  assumes "wf_grid n g"
  shows "flat_puzzle_of g = map (cell g) (filter (\<lambda>p. cell g p \<noteq> 0) (cells n))"
  unfolding flat_puzzle_of_def concat_cells [OF assms] by (simp add: filter_map o_def)

lemma first_two_exist:
  assumes "wf_grid n g" "2 \<le> length (flat_puzzle_of g)"
  shows "\<exists>p1 p2 rest. filter (\<lambda>p. cell g p \<noteq> 0) (cells n) = p1 # p2 # rest"
proof -
  from assms have "2 \<le> length (filter (\<lambda>p. cell g p \<noteq> 0) (cells n))"
    by (simp add: nonblank_filter [OF assms(1)])
  then show ?thesis
    by (cases "filter (\<lambda>p. cell g p \<noteq> 0) (cells n)" rule: remdups_adj.cases) simp_all
qed

lemma find_blank_position_returns:
  assumes "wf_grid (size_n s) (grid s)"
  shows "\<exists>br bc. find_blank_position s = Inr (br, bc)"
  using find_blank_in_wf [OF assms, of "cells (size_n s)"]
  by (cases "case List.find (\<lambda>p. cell (grid s) p = 0) (cells (size_n s)) of
        None \<Rightarrow> (0, 0) | Some p \<Rightarrow> p")
    (simp add: find_blank_position_def set_cells)

lemma check_solvability_parity:
  assumes "find_blank_position s = Inr (br, bc)"
  shows "check_solvability s =
     Inr (if size_n s mod 2 = 1 then even (inv_count (flat_puzzle_of (grid s)))
          else odd (int (inv_count (flat_puzzle_of (grid s))) + (size_n s - br)))"
  using check_solvability_odd [of s] check_solvability_even [OF _ assms]
  by (simp add: card_inversion_pairs)

lemma check_solvability_flip:
  assumes wf: "wf_grid (size_n s) (grid s)"
    and nb: "filter (\<lambda>p. cell (grid s) p \<noteq> 0) (cells (size_n s)) = p1 # p2 # rest"
    and ne: "cell (grid s) p1 \<noteq> cell (grid s) p2"
  defines "s' \<equiv> s\<lparr>grid := upd (upd (grid s) p1 (cell (grid s) p2)) p2 (cell (grid s) p1)\<rparr>"
  shows "\<exists>b. check_solvability s = Inr b \<and> check_solvability s' = Inr (\<not> b)"
    and "\<bar>count_inversions (flat_puzzle_of (grid s')) - count_inversions (flat_puzzle_of (grid s))\<bar> = 1"
proof -
  from swap_first_two(9) [OF wf nb] obtain R
    where f: "flat_puzzle_of (grid s) = cell (grid s) p1 # cell (grid s) p2 # R"
      and f': "flat_puzzle_of (grid s') = cell (grid s) p2 # cell (grid s) p1 # R"
    by (auto simp: s'_def)
  from inv_count_swap [OF ne, of R]
  have d: "inv_count (flat_puzzle_of (grid s')) = inv_count (flat_puzzle_of (grid s)) + 1 \<or>
      inv_count (flat_puzzle_of (grid s)) = inv_count (flat_puzzle_of (grid s')) + 1"
    unfolding f f' .
  then show "\<bar>count_inversions (flat_puzzle_of (grid s')) - count_inversions (flat_puzzle_of (grid s))\<bar> = 1"
    unfolding count_inversions_inv_count by auto
  from d have par: "even (inv_count (flat_puzzle_of (grid s'))) = odd (inv_count (flat_puzzle_of (grid s)))"
    by auto
  from find_blank_position_returns [OF wf] obtain br bc
    where fb: "find_blank_position s = Inr (br, bc)" by blast
  with find_blank_position_swap [OF wf nb] have fb': "find_blank_position s' = Inr (br, bc)"
    by (simp add: s'_def)
  have n: "size_n s' = size_n s" by (simp add: s'_def)
  show "\<exists>b. check_solvability s = Inr b \<and> check_solvability s' = Inr (\<not> b)"
    unfolding check_solvability_parity [OF fb] check_solvability_parity [OF fb'] n
    using par by auto
qed

subsection \<open>The repair step, generation and the invariant\<close>

lemma length_flat_puzzle:
  assumes "board_inv n g" "1 \<le> n"
  shows "length (flat_puzzle_of g) = nat (n * n) - 1"
proof -
  from assms(2) have "0 < n * n" by (simp add: zero_less_mult_iff)
  then obtain k where k: "nat (n * n) = Suc k" by (cases "nat (n * n)") auto
  have "mset (flat_puzzle_of g) = filter_mset (\<lambda>v. v \<noteq> 0) (mset (concat g))"
    by (simp add: flat_puzzle_of_def)
  also have "\<dots> = mset (filter (\<lambda>v. v \<noteq> 0) (range_py (n * n)))"
    using assms(1) by (simp add: board_inv_def)
  also have "range_py (n * n) = map int (0 # [Suc 0..<Suc k])"
    unfolding range_py_def k by (simp add: upt_rec [of 0] del: upt_Suc)
  also have "filter (\<lambda>v. v \<noteq> 0) (map int (0 # [Suc 0..<Suc k])) = map int [Suc 0..<Suc k]"
    by (simp add: filter_map o_def del: upt_Suc)
  finally have "size (mset (flat_puzzle_of g)) = size (mset (map int [Suc 0..<Suc k]))"
    by simp
  then show ?thesis by (simp add: k del: upt_Suc)
qed

lemma check_solvability_cong:
  "size_n s = size_n t \<Longrightarrow> grid s = grid t \<Longrightarrow> check_solvability s = check_solvability t"
  by (simp add: check_solvability_def find_blank_position_def Let_def)

lemma check_solvability_returns:
  assumes "wf_grid (size_n s) (grid s)"
  shows "\<exists>ok. check_solvability s = Inr ok"
proof -
  from find_blank_position_returns [OF assms] obtain br bc
    where "find_blank_position s = Inr (br, bc)" by blast
  from check_solvability_parity [OF this] show ?thesis by blast
qed

lemma repair:
  assumes inv: "board_inv (size_n s) (grid s)"
    and two: "2 \<le> length (flat_puzzle_of (grid s))"
  shows "\<exists>p1 p2 rest g'.
     filter (\<lambda>p. cell (grid s) p \<noteq> 0) (cells (size_n s)) = p1 # p2 # rest \<and>
     make_solvable s = Inr (s\<lparr>grid := g'\<rparr>) \<and> board_inv (size_n s) g' \<and>
     cell g' p1 = cell (grid s) p2 \<and> cell g' p2 = cell (grid s) p1 \<and>
     (\<forall>q. in_bounds (size_n s) q \<and> q \<noteq> p1 \<and> q \<noteq> p2 \<longrightarrow> cell g' q = cell (grid s) q) \<and>
     (\<forall>q. in_bounds (size_n s) q \<longrightarrow> (cell g' q = 0) = (cell (grid s) q = 0)) \<and>
     find_blank_position (s\<lparr>grid := g'\<rparr>) = find_blank_position s \<and>
     \<bar>count_inversions (flat_puzzle_of g') - count_inversions (flat_puzzle_of (grid s))\<bar> = 1 \<and>
     (\<exists>b. check_solvability s = Inr b \<and> check_solvability (s\<lparr>grid := g'\<rparr>) = Inr (\<not> b))"
proof -
  let ?n = "size_n s" and ?g = "grid s"
  from inv have wf: "wf_grid ?n ?g" by (simp add: board_inv_def)
  from first_two_exist [OF wf two] obtain p1 p2 rest
    where nb: "filter (\<lambda>p. cell ?g p \<noteq> 0) (cells ?n) = p1 # p2 # rest" by blast
  let ?g' = "upd (upd ?g p1 (cell ?g p2)) p2 (cell ?g p1)"
  note st = swap_first_two [OF wf nb]
  from st(9) obtain R where f: "flat_puzzle_of ?g = cell ?g p1 # cell ?g p2 # R" by blast
  have "distinct (flat_puzzle_of ?g)"
    unfolding flat_puzzle_of_def using board_inv_distinct [OF inv] by simp
  then have ne: "cell ?g p1 \<noteq> cell ?g p2" unfolding f by simp
  note fl = check_solvability_flip [OF wf nb ne]
  have sw: "cell ?g' q = swapped (cell ?g) p1 p2 q" if "in_bounds ?n q" for q
    using st(7) [OF that] .
  have 1: "make_solvable s = Inr (s\<lparr>grid := ?g'\<rparr>)" by (rule make_solvable_wf [OF wf nb])
  have 2: "board_inv ?n ?g'" using inv st(1,8) by (simp add: board_inv_def)
  have 3: "cell ?g' p1 = cell ?g p2" "cell ?g' p2 = cell ?g p1"
    using sw [OF st(2)] sw [OF st(3)] st(4) by (simp_all add: swapped_def)
  have 4: "\<forall>q. in_bounds ?n q \<and> q \<noteq> p1 \<and> q \<noteq> p2 \<longrightarrow> cell ?g' q = cell ?g q"
    using sw by (simp add: swapped_def)
  have 5: "\<forall>q. in_bounds ?n q \<longrightarrow> (cell ?g' q = 0) = (cell ?g q = 0)"
    using sw st(5,6) by (simp add: swapped_def)
  have 6: "find_blank_position (s\<lparr>grid := ?g'\<rparr>) = find_blank_position s"
    by (rule find_blank_position_swap [OF wf nb])
  have 7: "\<bar>count_inversions (flat_puzzle_of ?g') - count_inversions (flat_puzzle_of ?g)\<bar> = 1"
    using fl(2) by simp
  from nb 1 2 3 4 5 6 7 fl(1) show ?thesis by blast
qed

lemma move_tile_inv:
  assumes "state_inv s"
  shows "\<exists>ok s'. move_tile s row col = Inr (ok, s') \<and> state_inv s' \<and>
           size_n s' = size_n s \<and> difficulty s' = difficulty s"
proof -
  from assms have wf: "wf_grid (size_n s) (grid s)" and bp: "in_bounds (size_n s) (blank_pos s)"
    and z: "cell (grid s) (blank_pos s) = 0"
    and m: "mset (concat (grid s)) = mset (range_py (size_n s * size_n s))"
    by (simp_all add: state_inv_def board_inv_def)
  from can_move_tile_wf [OF wf] obtain ok where ok: "can_move_tile s row col = Inr ok"
    by blast
  show ?thesis
  proof (cases ok)
    case False
    with ok have "move_tile s row col = Inr (False, s)" by (simp add: move_tile_def)
    with assms show ?thesis by blast
  next
    case True
    with ok have ok': "can_move_tile s row col = Inr True" by simp
    with wf have rc: "in_bounds (size_n s) (row, col)"
      by (simp add: can_move_tile_wf)
    let ?s' = "s\<lparr>grid := upd (upd (grid s) (blank_pos s) (cell (grid s) (row, col))) (row, col) 0,
                  blank_pos := (row, col),
                  stats := (stats s)\<lparr>moves := moves (stats s) + 1\<rparr>\<rparr>"
    have "move_tile s row col = Inr (True, ?s')"
      by (rule move_tile_accepted [OF wf bp ok'])
    moreover have "state_inv ?s'"
      using slide_cells(1-3) [OF wf bp rc z] m rc by (simp add: state_inv_def board_inv_def)
    moreover have "size_n ?s' = size_n s" "difficulty ?s' = difficulty s" by simp_all
    ultimately show ?thesis by blast
  qed
qed

lemma generate_inv:
  assumes n: "1 \<le> size_n s"
  shows "\<exists>s'. generate_solvable_puzzle s rnd now = Inr s' \<and> state_inv s' \<and>
           check_solvability s' = Inr True \<and> size_n s' = size_n s \<and>
           difficulty s' = difficulty s \<and> moves (stats s') = 0"
proof -
  let ?n = "size_n s"
  let ?g1 = "upd (solved_rows ?n) (?n - 1, ?n - 1) 0"
  let ?s1 = "s\<lparr>grid := ?g1, blank_pos := (?n - 1, ?n - 1)\<rparr>"
  note ib = initial_board [OF n]
  from ib(2) have wf1: "wf_grid ?n ?g1" by (simp add: board_inv_def)
  from shuffle_puzzle_inv [of ?s1 rnd] wf1 ib(3,4) obtain g2
    where sh: "shuffle_puzzle ?s1 rnd = Inr g2" and wf2: "wf_grid ?n g2"
      and m2: "mset (concat g2) = mset (concat ?g1)"
    by auto
  let ?s2 = "?s1\<lparr>grid := g2\<rparr>"
  from ib(2) wf2 m2 have inv2: "board_inv ?n g2" by (simp add: board_inv_def)
  from find_blank_position_total [of ?s2] wf2 board_inv_zero [OF inv2 n] obtain bp
    where fb: "find_blank_position ?s2 = Inr bp" and bpi: "in_bounds ?n bp" and bz: "cell g2 bp = 0"
    by auto
  let ?s3 = "?s2\<lparr>blank_pos := bp\<rparr>"
  have fb3: "find_blank_position ?s3 = Inr bp"
    using fb by (simp add: find_blank_position_def)
  from check_solvability_returns [of ?s3] wf2 obtain ok
    where ck: "check_solvability ?s3 = Inr ok" by auto
  let ?st = "new_GameStats\<lparr>start_time := now\<rparr>"
  show ?thesis
  proof (cases ok)
    case True
    have "generate_solvable_puzzle s rnd now = Inr (?s3\<lparr>stats := ?st\<rparr>)"
      using ib(1) sh fb ck True by (simp add: generate_solvable_puzzle_def Let_def)
    moreover have "state_inv (?s3\<lparr>stats := ?st\<rparr>)"
      using inv2 bpi bz by (simp add: state_inv_def)
    moreover have "check_solvability (?s3\<lparr>stats := ?st\<rparr>) = Inr True"
      using ck True check_solvability_cong [of "?s3\<lparr>stats := ?st\<rparr>" ?s3] by simp
    ultimately show ?thesis by (simp add: new_GameStats_def)
  next
    case False
    have "2 \<le> length (flat_puzzle_of g2)"
    proof (cases "?n = 1")
      case True
      with length_flat_puzzle [OF inv2 n] have "flat_puzzle_of g2 = []" by simp
      with ck False True have False
        by (simp add: check_solvability_def count_inversions_def)
      then show ?thesis ..
    next
      case False
      with n have "2 \<le> ?n" by simp
      then have "2 * 2 \<le> ?n * ?n" by (intro mult_mono) simp_all
      with length_flat_puzzle [OF inv2 n] show ?thesis by simp
    qed
    with repair [of ?s3] inv2 obtain g'
      where mk: "make_solvable ?s3 = Inr (?s3\<lparr>grid := g'\<rparr>)" and inv': "board_inv ?n g'"
        and zz: "\<forall>q. in_bounds ?n q \<longrightarrow> (cell g' q = 0) = (cell g2 q = 0)"
        and fb': "find_blank_position (?s3\<lparr>grid := g'\<rparr>) = find_blank_position ?s3"
        and fl: "\<exists>b. check_solvability ?s3 = Inr b \<and> check_solvability (?s3\<lparr>grid := g'\<rparr>) = Inr (\<not> b)"
      by auto
    let ?s4 = "?s3\<lparr>grid := g'\<rparr>"
    let ?s5 = "?s4\<lparr>blank_pos := bp\<rparr>"
    from fl ck False have ck4: "check_solvability ?s4 = Inr True" by auto
    have "generate_solvable_puzzle s rnd now = Inr (?s5\<lparr>stats := ?st\<rparr>)"
      using ib(1) sh fb ck False mk fb' fb3 by (simp add: generate_solvable_puzzle_def Let_def)
    moreover from zz bpi bz have "cell g' bp = 0" by blast
    then have "state_inv (?s5\<lparr>stats := ?st\<rparr>)"
      using inv' bpi by (simp add: state_inv_def)
    moreover have "check_solvability (?s5\<lparr>stats := ?st\<rparr>) = Inr True"
      using ck4 check_solvability_cong [of "?s5\<lparr>stats := ?st\<rparr>" ?s4] by simp
    ultimately show ?thesis by (simp add: new_GameStats_def)
  qed
qed

lemma run_inv:
  assumes "state_inv s"
  shows "\<exists>s'. run s cs = Inr s' \<and> state_inv s'"
  using assms
proof (induction cs arbitrary: s)
  case Nil
  then show ?case by simp
next
  case (Cons c cs)
  show ?case
  proof (cases c)
    case (Generate d rnd now)
    have "1 \<le> size_n (s\<lparr>difficulty := d, size_n := difficulty_value d\<rparr>)"
      by (cases d) simp_all
    from generate_inv [OF this, of rnd now] obtain s1
      where "generate_solvable_puzzle (s\<lparr>difficulty := d, size_n := difficulty_value d\<rparr>) rnd now = Inr s1"
        "state_inv s1"
      by blast
    with Cons.IH [of s1] Generate show ?thesis by simp
  next
    case (Move row col)
    from move_tile_inv [OF Cons.prems, of row col] obtain ok s1
      where "move_tile s row col = Inr (ok, s1)" "state_inv s1"
      by blast
    with Cons.IH [of s1] Move show ?thesis by simp
  qed
qed

lemma generate_rejects:
  assumes "size_n s \<le> 0"
  shows "generate_solvable_puzzle s rnd now = Inl IndexError"
proof -
  from assms have "solved_rows (size_n s) = []"
    by (simp add: solved_rows_def range_py_def)
  then have "grid_set (solved_rows (size_n s)) (size_n s - 1) (size_n s - 1) 0 = Inl IndexError"
    using assms by (simp add: grid_set_def py_index_def norm_index_def)
  then show ?thesis
    by (simp add: generate_solvable_puzzle_def Let_def)
qed

lemma board_inv_count:
  assumes "board_inv n g"
  shows "count_list (concat g) v = (if 0 \<le> v \<and> v < n * n then 1 else 0)"
proof -
  have d: "distinct (range_py (n * n))"
    by (simp add: range_py_def distinct_map)
  have "count_list (concat g) v = count (mset (range_py (n * n))) v"
    using assms by (simp add: board_inv_def flip: count_mset)
  also have "\<dots> = (if v \<in> set (range_py (n * n)) then 1 else 0)"
    using d unfolding distinct_count_atmost_1 by blast
  finally show ?thesis by (simp add: set_range_py)
qed

lemma board_inv_test: "board_inv 3 [[1,2,3],[4,5,6],[8,7,0]]"
  by (simp add: board_inv_def wf_grid_test_3 range_py_def upt_rec)

section \<open>The claims\<close>

subsection \<open>Moves\<close>

text \<open>
  C4. On a well-formed board whose stored blank position is in bounds, a call
  \<open>move_tile(row, col)\<close> with \<open>can_move_tile(row, col)\<close> true returns true: the value
  at \<open>(row, col)\<close> is now at the old blank position, \<open>(row, col)\<close> holds 0, every
  other cell is as before, \<open>blank_pos\<close> is \<open>(row, col)\<close> and the move count is one
  higher. On any state, a call that returns changes the move count by 1 when it returns
  true and by 0 when it returns false.
\<close>

theorem move_tile_accepted_spec:
  assumes "wf_grid (size_n s) (grid s)" and "in_bounds (size_n s) (blank_pos s)"
    and "can_move_tile s row col = Inr True"
  shows "(\<exists>g'. move_tile s row col =
            Inr (True, s\<lparr>grid := g', blank_pos := (row, col),
                         stats := (stats s)\<lparr>moves := moves (stats s) + 1\<rparr>\<rparr>) \<and>
          wf_grid (size_n s) g' \<and>
          cell g' (blank_pos s) = cell (grid s) (row, col) \<and>
          cell g' (row, col) = 0 \<and>
          (\<forall>q. in_bounds (size_n s) q \<and> q \<noteq> blank_pos s \<and> q \<noteq> (row, col)
             \<longrightarrow> cell g' q = cell (grid s) q)) \<and>
         (\<forall>t r c b t'. move_tile t r c = Inr (b, t')
             \<longrightarrow> moves (stats t') = moves (stats t) + (if b then 1 else 0))"
proof -
  let ?n = "size_n s" and ?g = "grid s" and ?b = "blank_pos s"
  let ?ga = "upd ?g ?b (cell ?g (row, col))"
  let ?gb = "upd ?ga (row, col) 0"
  from assms have rc: "in_bounds ?n (row, col)"
    and adj: "\<bar>row - fst ?b\<bar> + \<bar>col - snd ?b\<bar> = 1"
    by (simp_all add: can_move_tile_wf)
  from adj have ne: "?b \<noteq> (row, col)" by auto
  have wf0: "wf_grid ?n ?ga" by (rule wf_grid_upd [OF assms(1)])
  have wf1: "wf_grid ?n ?gb" by (rule wf_grid_upd [OF wf0])
  have c1: "cell ?gb q = (if q = (row, col) then 0 else if q = ?b then cell ?g (row, col) else cell ?g q)"
    if "in_bounds ?n q" for q
  proof -
    have "cell ?gb q = (if q = (row, col) then 0 else cell ?ga q)"
      by (rule cell_upd [OF wf0 rc that])
    moreover have "cell ?ga q = (if q = ?b then cell ?g (row, col) else cell ?g q)"
      by (rule cell_upd [OF assms(1,2) that])
    ultimately show ?thesis by simp
  qed
  have "cell ?gb ?b = cell ?g (row, col)" using c1 [OF assms(2)] ne by simp
  moreover have "cell ?gb (row, col) = 0" using c1 [OF rc] by simp
  moreover have "\<forall>q. in_bounds ?n q \<and> q \<noteq> ?b \<and> q \<noteq> (row, col) \<longrightarrow> cell ?gb q = cell ?g q"
    using c1 by simp
  ultimately have "\<exists>g'. move_tile s row col =
            Inr (True, s\<lparr>grid := g', blank_pos := (row, col),
                         stats := (stats s)\<lparr>moves := moves (stats s) + 1\<rparr>\<rparr>) \<and>
          wf_grid ?n g' \<and> cell g' ?b = cell ?g (row, col) \<and> cell g' (row, col) = 0 \<and>
          (\<forall>q. in_bounds ?n q \<and> q \<noteq> ?b \<and> q \<noteq> (row, col) \<longrightarrow> cell g' q = cell ?g q)"
    using move_tile_accepted [OF assms] wf1 by blast
  then show ?thesis
    using move_tile_moves by blast
qed

theorem move_tile_accepted_spec_witness:
  "wf_grid 3 [[1,2,3],[4,0,5],[6,7,8]] \<and> in_bounds 3 (1, 1) \<and>
   can_move_tile (test_game [[1,2,3],[4,0,5],[6,7,8]] (1, 1)) 0 1 = Inr True \<and>
   (\<exists>g'. move_tile (test_game [[1,2,3],[4,0,5],[6,7,8]] (1, 1)) 0 1 =
      Inr (True, \<lparr>difficulty = EASY, size_n = 3, grid = g', blank_pos = (0, 1),
                  stats = new_GameStats\<lparr>moves := 1\<rparr>\<rparr>) \<and>
      cell g' (1, 1) = 2 \<and> cell g' (0, 1) = 0)"
proof -
  let ?s = "test_game [[1,2,3],[4,0,5],[6,7,8]] (1, 1)"
  have 1: "wf_grid (size_n ?s) (grid ?s)"
    by (simp add: test_game_def wf_grid_test_3)
  have 2: "in_bounds (size_n ?s) (blank_pos ?s)"
    by (simp add: test_game_def in_bounds_def)
  have 3: "can_move_tile ?s 0 1 = Inr True"
    by (simp add: can_move_tile_def test_game_def grid_get_def py_index_def norm_index_def)
  have 4: "cell (grid ?s) (0, 1) = 2"
    by (simp add: test_game_def cell_def)
  from move_tile_accepted_spec [OF 1 2 3] 4 have
    "\<exists>g'. move_tile ?s 0 1 =
        Inr (True, ?s\<lparr>grid := g', blank_pos := (0, 1),
                   stats := (stats ?s)\<lparr>moves := moves (stats ?s) + 1\<rparr>\<rparr>) \<and>
        cell g' (1, 1) = 2 \<and> cell g' (0, 1) = 0"
    by (auto simp: test_game_def)
  then have "\<exists>g'. move_tile ?s 0 1 =
      Inr (True, \<lparr>difficulty = EASY, size_n = 3, grid = g', blank_pos = (0, 1),
                  stats = new_GameStats\<lparr>moves := 1\<rparr>\<rparr>) \<and>
      cell g' (1, 1) = 2 \<and> cell g' (0, 1) = 0"
    by (simp add: test_game_def new_GameStats_def)
  with 1 2 3 show ?thesis
    by (simp add: test_game_def)
qed

text \<open>
  C5. A call \<open>move_tile(row, col)\<close> with \<open>can_move_tile(row, col)\<close> false returns
  false and the state it leaves is the state it found: board, blank position and move
  count are unchanged, and nothing is raised.
\<close>

theorem move_tile_rejected:
  "can_move_tile s row col = Inr False \<Longrightarrow> move_tile s row col = Inr (False, s)"
  by (simp add: move_tile_def)

theorem move_tile_rejected_witness:
  "can_move_tile (test_game [[1,2,3],[4,0,5],[6,7,8]] (1, 1)) 0 0 = Inr False \<and>
   move_tile (test_game [[1,2,3],[4,0,5],[6,7,8]] (1, 1)) 0 0 =
     Inr (False, test_game [[1,2,3],[4,0,5],[6,7,8]] (1, 1))"
proof -
  have h: "can_move_tile (test_game [[1,2,3],[4,0,5],[6,7,8]] (1, 1)) 0 0 = Inr False"
    by (simp add: can_move_tile_def test_game_def grid_get_def py_index_def norm_index_def)
  from move_tile_rejected [OF h] h show ?thesis by simp
qed

text \<open>
  C6. On a well-formed board \<open>can_move_tile(row, col)\<close> returns true exactly when
  \<open>(row, col)\<close> is in bounds, the cell there is not 0 and the Manhattan distance from
  \<open>(row, col)\<close> to the stored blank position is 1. It returns a truth value only, so
  it changes nothing. On the board \<open>[[1,2,3],[4,0,5],[6,7,8]]\<close> with the blank at
  \<open>(1,1)\<close> it is true at \<open>(0,1)\<close>, \<open>(1,0)\<close>, \<open>(1,2)\<close>, \<open>(2,1)\<close> and false at
  \<open>(0,0)\<close>, \<open>(2,2)\<close> and \<open>(1,1)\<close>.
\<close>

theorem can_move_tile_spec:
  "(wf_grid (size_n s) (grid s) \<longrightarrow>
      can_move_tile s row col =
        Inr (in_bounds (size_n s) (row, col) \<and> cell (grid s) (row, col) \<noteq> 0 \<and>
             \<bar>row - fst (blank_pos s)\<bar> + \<bar>col - snd (blank_pos s)\<bar> = 1)) \<and>
   can_move_tile (test_game [[1,2,3],[4,0,5],[6,7,8]] (1, 1)) 0 1 = Inr True \<and>
   can_move_tile (test_game [[1,2,3],[4,0,5],[6,7,8]] (1, 1)) 1 0 = Inr True \<and>
   can_move_tile (test_game [[1,2,3],[4,0,5],[6,7,8]] (1, 1)) 1 2 = Inr True \<and>
   can_move_tile (test_game [[1,2,3],[4,0,5],[6,7,8]] (1, 1)) 2 1 = Inr True \<and>
   can_move_tile (test_game [[1,2,3],[4,0,5],[6,7,8]] (1, 1)) 0 0 = Inr False \<and>
   can_move_tile (test_game [[1,2,3],[4,0,5],[6,7,8]] (1, 1)) 2 2 = Inr False \<and>
   can_move_tile (test_game [[1,2,3],[4,0,5],[6,7,8]] (1, 1)) 1 1 = Inr False"
proof -
  let ?s = "test_game [[1,2,3],[4,0,5],[6,7,8]] (1, 1)"
  have "can_move_tile ?s 0 1 = Inr True" "can_move_tile ?s 1 0 = Inr True"
    "can_move_tile ?s 1 2 = Inr True" "can_move_tile ?s 2 1 = Inr True"
    "can_move_tile ?s 0 0 = Inr False" "can_move_tile ?s 2 2 = Inr False"
    "can_move_tile ?s 1 1 = Inr False"
    by (simp_all add: can_move_tile_def test_game_def grid_get_def py_index_def norm_index_def)
  then show ?thesis
    by (simp add: can_move_tile_wf)
qed

theorem can_move_tile_spec_witness:
  "wf_grid 3 [[1,2,3],[4,0,5],[6,7,8]] \<and>
   can_move_tile (test_game [[1,2,3],[4,0,5],[6,7,8]] (1, 1)) 2 1 =
     Inr (in_bounds 3 (2, 1) \<and> cell [[1,2,3],[4,0,5],[6,7,8]] (2, 1) \<noteq> 0 \<and>
          \<bar>2 - 1\<bar> + \<bar>1 - 1\<bar> = (1::int))"
  using can_move_tile_spec [of "test_game [[1,2,3],[4,0,5],[6,7,8]] (1, 1)" 2 1]
  by (simp add: test_game_def wf_grid_test_3)

text \<open>
  C10. An accepted move can be taken back. On a well-formed board whose stored blank
  position \<open>(br, bc)\<close> is in bounds and holds 0, if \<open>move_tile(row, col)\<close> returns
  true then \<open>move_tile(br, bc)\<close> on the resulting state returns true as well, and the
  state it leaves is the first one with the move count increased by 2.
\<close>

theorem move_tile_reversible:
  assumes "wf_grid (size_n s) (grid s)" and "in_bounds (size_n s) (blank_pos s)"
    and "cell (grid s) (blank_pos s) = 0"
    and "move_tile s row col = Inr (True, s1)"
  shows "\<exists>s2. move_tile s1 (fst (blank_pos s)) (snd (blank_pos s)) = Inr (True, s2) \<and>
           grid s2 = grid s \<and> blank_pos s2 = blank_pos s \<and>
           moves (stats s2) = moves (stats s) + 2 \<and>
           s2 = s\<lparr>stats := (stats s)\<lparr>moves := moves (stats s) + 2\<rparr>\<rparr>"
  using move_tile_undo [OF assms] by simp

theorem move_tile_reversible_witness:
  "wf_grid 3 [[1,2,3],[4,0,5],[6,7,8]] \<and> in_bounds 3 (1, 1) \<and>
   cell [[1,2,3],[4,0,5],[6,7,8]] (1, 1) = 0 \<and>
   move_tile (test_game [[1,2,3],[4,0,5],[6,7,8]] (1, 1)) 0 1 =
     Inr (True, (test_game [[1,0,3],[4,2,5],[6,7,8]] (0, 1))\<lparr>stats := new_GameStats\<lparr>moves := 1\<rparr>\<rparr>) \<and>
   move_tile ((test_game [[1,0,3],[4,2,5],[6,7,8]] (0, 1))\<lparr>stats := new_GameStats\<lparr>moves := 1\<rparr>\<rparr>) 1 1 =
     Inr (True, (test_game [[1,2,3],[4,0,5],[6,7,8]] (1, 1))\<lparr>stats := new_GameStats\<lparr>moves := 2\<rparr>\<rparr>)"
proof -
  let ?s = "test_game [[1,2,3],[4,0,5],[6,7,8]] (1, 1)"
  let ?s1 = "(test_game [[1,0,3],[4,2,5],[6,7,8]] (0, 1))\<lparr>stats := new_GameStats\<lparr>moves := 1\<rparr>\<rparr>"
  have 1: "wf_grid (size_n ?s) (grid ?s)"
    by (simp add: test_game_def wf_grid_test_3)
  have 2: "in_bounds (size_n ?s) (blank_pos ?s)"
    by (simp add: test_game_def in_bounds_def)
  have 3: "cell (grid ?s) (blank_pos ?s) = 0"
    by (simp add: test_game_def cell_def)
  have 4: "move_tile ?s 0 1 = Inr (True, ?s1)"
    by (simp add: move_tile_def can_move_tile_def test_game_def grid_get_def grid_set_def
        py_index_def py_store_def norm_index_def new_GameStats_def)
  from move_tile_reversible [OF 1 2 3 4]
  have "move_tile ?s1 1 1 = Inr (True, ?s\<lparr>stats := new_GameStats\<lparr>moves := 2\<rparr>\<rparr>)"
    by (simp add: test_game_def new_GameStats_def)
  with 1 2 3 4 show ?thesis
    by (simp add: test_game_def)
qed

subsection \<open>Queries\<close>

text \<open>
  C7. On a well-formed board \<open>is_solved\<close> returns true exactly when every cell other
  than the last one holds \<open>row * size + col + 1\<close> and the last cell holds 0. It returns
  a truth value only, so it changes nothing. The board \<open>[[1,2,3],[4,5,6],[7,8,0]]\<close>
  gives true and \<open>[[1,2,3],[4,5,6],[7,0,8]]\<close> gives false.
\<close>

theorem is_solved_spec:
  "(wf_grid (size_n s) (grid s) \<longrightarrow>
      is_solved s =
        Inr (\<forall>row col. 0 \<le> row \<and> row < size_n s \<and> 0 \<le> col \<and> col < size_n s \<longrightarrow>
               cell (grid s) (row, col) =
                 (if row = size_n s - 1 \<and> col = size_n s - 1 then 0
                  else row * size_n s + col + 1))) \<and>
   is_solved (test_game [[1,2,3],[4,5,6],[7,8,0]] (2, 2)) = Inr True \<and>
   is_solved (test_game [[1,2,3],[4,5,6],[7,0,8]] (2, 1)) = Inr False"
proof -
  have "is_solved s =
        Inr (\<forall>row col. 0 \<le> row \<and> row < size_n s \<and> 0 \<le> col \<and> col < size_n s \<longrightarrow>
               cell (grid s) (row, col) =
                 (if row = size_n s - 1 \<and> col = size_n s - 1 then 0
                  else row * size_n s + col + 1))"
    if "wf_grid (size_n s) (grid s)"
    unfolding is_solved_wf [OF that] set_cells
    by (auto simp: in_bounds_def expected_at_def)
  then show ?thesis
    by (simp add: is_solved_examples)
qed

theorem is_solved_spec_witness:
  "wf_grid 3 [[1,2,3],[4,5,6],[7,8,0]] \<and>
   is_solved (test_game [[1,2,3],[4,5,6],[7,8,0]] (2, 2)) =
     Inr (\<forall>row col. 0 \<le> row \<and> row < 3 \<and> 0 \<le> col \<and> col < 3 \<longrightarrow>
            cell [[1,2,3],[4,5,6],[7,8,0]] (row, col) =
              (if row = 3 - 1 \<and> col = 3 - 1 then 0 else row * 3 + col + 1))"
  using is_solved_spec [of "test_game [[1,2,3],[4,5,6],[7,8,0]] (2, 2)"]
  by (simp add: test_game_def wf_grid_test_3)

text \<open>
  C2. \<open>_check_solvability\<close> counts the inversions of the row-major flattening of the
  board without its zeros: the pairs of positions \<open>i < j\<close> whose values are out of
  order. When the size is odd it returns true exactly when that number is even. When the
  size is even and the board is well formed with its only zero at \<open>(br, bc)\<close>, it
  returns true exactly when the number plus \<open>size - br\<close> is odd. The board
  \<open>[[1,2,3],[4,5,6],[7,8,0]]\<close> gives true and \<open>[[1,2,3],[4,5,6],[8,7,0]]\<close> gives false.
\<close>

theorem check_solvability_spec:
  "(size_n s mod 2 = 1 \<longrightarrow>
      check_solvability s =
        Inr (even (card (inversion_pairs (filter (\<lambda>v. v \<noteq> 0) (concat (grid s))))))) \<and>
   (size_n s mod 2 = 0 \<and> wf_grid (size_n s) (grid s) \<and>
    filter (\<lambda>q. cell (grid s) q = 0) (cells (size_n s)) = [(br, bc)] \<longrightarrow>
      check_solvability s =
        Inr (odd (int (card (inversion_pairs (filter (\<lambda>v. v \<noteq> 0) (concat (grid s))))) +
                  (size_n s - br)))) \<and>
   check_solvability (test_game [[1,2,3],[4,5,6],[7,8,0]] (2, 2)) = Inr True \<and>
   check_solvability (test_game [[1,2,3],[4,5,6],[8,7,0]] (2, 2)) = Inr False"
proof -
  have even_case: "check_solvability s =
        Inr (odd (int (card (inversion_pairs (filter (\<lambda>v. v \<noteq> 0) (concat (grid s))))) +
                  (size_n s - br)))"
    if "size_n s mod 2 = 0" "wf_grid (size_n s) (grid s)"
      "filter (\<lambda>q. cell (grid s) q = 0) (cells (size_n s)) = [(br, bc)]"
  proof -
    from that(1) have "size_n s mod 2 \<noteq> 1" by simp
    have "set (filter (\<lambda>q. cell (grid s) q = 0) (cells (size_n s))) = {(br, bc)}"
      unfolding that(3) by simp
    then have "\<forall>q. (in_bounds (size_n s) q \<and> cell (grid s) q = 0) = (q = (br, bc))"
      unfolding set_filter set_cells by blast
    then have "in_bounds (size_n s) (br, bc)" "cell (grid s) (br, bc) = 0"
      "\<forall>q. in_bounds (size_n s) q \<and> cell (grid s) q = 0 \<longrightarrow> q = (br, bc)"
      by blast+
    from check_solvability_even [OF \<open>size_n s mod 2 \<noteq> 1\<close>
        find_blank_position_unique [OF that(2) this]]
    show ?thesis by (simp add: flat_puzzle_of_def)
  qed
  have odd_case: "check_solvability s =
        Inr (even (card (inversion_pairs (filter (\<lambda>v. v \<noteq> 0) (concat (grid s))))))"
    if "size_n s mod 2 = 1"
    using check_solvability_odd [OF that] by (simp add: flat_puzzle_of_def)
  show ?thesis
    by (intro conjI impI)
      (erule odd_case, (elim conjE, erule (2) even_case), rule check_solvability_examples(1),
        rule check_solvability_examples(2))
qed

theorem check_solvability_spec_witness:
  "(3::int) mod 2 = 1 \<and>
   check_solvability (test_game [[1,2,3],[4,5,6],[8,7,0]] (2, 2)) =
     Inr (even (card (inversion_pairs [1,2,3,4,5,6,8,7]))) \<and>
   (4::int) mod 2 = 0 \<and> wf_grid 4 [[1,2,3,4],[5,6,7,8],[9,10,11,12],[13,14,15,0]] \<and>
   filter (\<lambda>q. cell [[1,2,3,4],[5,6,7,8],[9,10,11,12],[13,14,15,0]] q = 0) (cells 4) = [(3, 3)] \<and>
   check_solvability (test_game [[1,2,3,4],[5,6,7,8],[9,10,11,12],[13,14,15,0]] (3, 3)) =
     Inr (odd (int (card (inversion_pairs [1,2,3,4,5,6,7,8,9,10,11,12,13,14,15])) + (4 - 3)))"
proof -
  let ?g = "[[1,2,3,4],[5,6,7,8],[9,10,11,12],[13,14,15,0]] :: grid_t"
  let ?s3 = "test_game [[1,2,3],[4,5,6],[8,7,0]] (2, 2)"
  let ?s4 = "test_game ?g (3, 3)"
  have wf: "wf_grid 4 ?g" by (simp add: wf_grid_def)
  have u: "filter (\<lambda>q. cell ?g q = 0) (cells 4) = [(3, 3)]"
    unfolding cells_4 by (simp add: cell_def)
  have n3: "size_n ?s3 = 3" and g3: "filter (\<lambda>v. v \<noteq> 0) (concat (grid ?s3)) = [1,2,3,4,5,6,8,7]"
    by (simp_all add: test_game_def)
  have n4: "size_n ?s4 = 4" and g4: "grid ?s4 = ?g"
    and f4: "filter (\<lambda>v. v \<noteq> 0) (concat ?g) = [1,2,3,4,5,6,7,8,9,10,11,12,13,14,15]"
    by (simp_all add: test_game_def)
  have m3: "size_n ?s3 mod 2 = 1" unfolding n3 by simp
  have m4: "size_n ?s4 mod 2 = 0" unfolding n4 by simp
  have odd3: "check_solvability ?s3 = Inr (even (card (inversion_pairs [1,2,3,4,5,6,8,7])))"
    using check_solvability_spec [of ?s3, THEN conjunct1, rule_format, OF m3]
    unfolding g3 .
  have h4: "size_n ?s4 mod 2 = 0 \<and> wf_grid (size_n ?s4) (grid ?s4) \<and>
      filter (\<lambda>q. cell (grid ?s4) q = 0) (cells (size_n ?s4)) = [(3, 3)]"
    unfolding g4 unfolding n4 using wf u by (intro conjI) simp_all
  have even4: "check_solvability ?s4 =
      Inr (odd (int (card (inversion_pairs [1,2,3,4,5,6,7,8,9,10,11,12,13,14,15])) + (4 - 3)))"
    using check_solvability_spec [of ?s4 3 3, THEN conjunct2, THEN conjunct1, rule_format, OF h4]
    unfolding g4 f4 n4 .
  from wf u odd3 even4 show ?thesis by (intro conjI) simp_all
qed

subsection \<open>Generation\<close>

text \<open>
  C8. On a board that satisfies the invariant and has at least two cells other than the
  blank, \<open>_make_solvable\<close> exchanges the values of the first two non-zero cells of the
  row-major scan and leaves every other cell as it was, the blank among them. The number
  of inversions changes by exactly one, so the answer of \<open>_check_solvability\<close> turns
  into its opposite: a board it rejects becomes a board it accepts.
\<close>

theorem make_solvable_spec:
  assumes "board_inv (size_n s) (grid s)" and "2 \<le> length (flat_puzzle_of (grid s))"
  shows "\<exists>p1 p2 rest g'.
     filter (\<lambda>p. cell (grid s) p \<noteq> 0) (cells (size_n s)) = p1 # p2 # rest \<and>
     make_solvable s = Inr (s\<lparr>grid := g'\<rparr>) \<and> board_inv (size_n s) g' \<and>
     cell g' p1 = cell (grid s) p2 \<and> cell g' p2 = cell (grid s) p1 \<and>
     (\<forall>q. in_bounds (size_n s) q \<and> q \<noteq> p1 \<and> q \<noteq> p2 \<longrightarrow> cell g' q = cell (grid s) q) \<and>
     (\<forall>q. in_bounds (size_n s) q \<longrightarrow> (cell g' q = 0) = (cell (grid s) q = 0)) \<and>
     find_blank_position (s\<lparr>grid := g'\<rparr>) = find_blank_position s \<and>
     \<bar>count_inversions (flat_puzzle_of g') - count_inversions (flat_puzzle_of (grid s))\<bar> = 1 \<and>
     (\<exists>b. check_solvability s = Inr b \<and> check_solvability (s\<lparr>grid := g'\<rparr>) = Inr (\<not> b))"
  by (rule repair [OF assms])

theorem make_solvable_spec_witness:
  "board_inv 3 [[1,2,3],[4,5,6],[8,7,0]] \<and>
   2 \<le> length (flat_puzzle_of [[1,2,3],[4,5,6],[8,7,0]]) \<and>
   check_solvability (test_game [[1,2,3],[4,5,6],[8,7,0]] (2, 2)) = Inr False \<and>
   (\<exists>g'. make_solvable (test_game [[1,2,3],[4,5,6],[8,7,0]] (2, 2)) =
            Inr ((test_game [[1,2,3],[4,5,6],[8,7,0]] (2, 2))\<lparr>grid := g'\<rparr>) \<and>
          check_solvability ((test_game [[1,2,3],[4,5,6],[8,7,0]] (2, 2))\<lparr>grid := g'\<rparr>) = Inr True)"
proof -
  let ?s = "test_game [[1,2,3],[4,5,6],[8,7,0]] (2, 2)"
  have 1: "board_inv (size_n ?s) (grid ?s)"
    by (simp add: test_game_def board_inv_test)
  have 2: "2 \<le> length (flat_puzzle_of (grid ?s))"
    by (simp add: test_game_def flat_puzzle_of_def)
  have 3: "check_solvability ?s = Inr False"
    by (rule check_solvability_examples(2))
  from make_solvable_spec [OF 1 2] obtain g' b
    where "make_solvable ?s = Inr (?s\<lparr>grid := g'\<rparr>)" "check_solvability ?s = Inr b"
      "check_solvability (?s\<lparr>grid := g'\<rparr>) = Inr (\<not> b)"
    by blast
  with 3 have "\<exists>g'. make_solvable ?s = Inr (?s\<lparr>grid := g'\<rparr>) \<and>
      check_solvability (?s\<lparr>grid := g'\<rparr>) = Inr True"
    by auto
  moreover have "board_inv 3 [[1,2,3],[4,5,6],[8,7,0]]" by (rule board_inv_test)
  moreover have "2 \<le> length (flat_puzzle_of [[1,2,3],[4,5,6],[8,7,0]])"
    by (simp add: flat_puzzle_of_def)
  ultimately show ?thesis using 3 by blast
qed

text \<open>
  C1. For every difficulty and every outcome of the shuffles, the constructor returns a
  state on which \<open>_check_solvability\<close> is true; so does \<open>generate_solvable_puzzle\<close>
  called on any state whose size is 3, 4, 5 or 6. Neither raises.
\<close>

theorem generate_solvable:
  "(\<exists>s'. init d rnd now = Inr s' \<and> check_solvability s' = Inr True) \<and>
   (size_n s \<in> {3, 4, 5, 6} \<longrightarrow>
      (\<exists>s'. generate_solvable_puzzle s rnd now = Inr s' \<and> check_solvability s' = Inr True))"
proof -
  have "1 \<le> difficulty_value d" by (cases d) simp_all
  then have "\<exists>s'. init d rnd now = Inr s' \<and> check_solvability s' = Inr True"
    unfolding init_def using generate_inv [of _ rnd now] by (metis select_convs(2))
  moreover have "\<exists>s'. generate_solvable_puzzle s rnd now = Inr s' \<and> check_solvability s' = Inr True"
    if "size_n s \<in> {3, 4, 5, 6}"
  proof -
    from that have "1 \<le> size_n s" by auto
    from generate_inv [OF this, of rnd now] show ?thesis by blast
  qed
  ultimately show ?thesis by blast
qed

theorem generate_solvable_witness:
  "(\<exists>s'. init HARD (\<lambda>k. [(0, 1), (0, - 1), (1, 0), (- 1, 0)]) 0 = Inr s' \<and>
          check_solvability s' = Inr True) \<and>
   (\<exists>s'. generate_solvable_puzzle (test_game [[1,2,3],[4,0,5],[6,7,8]] (1, 1))
            (\<lambda>k. [(- 1, 0), (1, 0), (0, - 1), (0, 1)]) 0 = Inr s' \<and>
          check_solvability s' = Inr True)"
proof -
  have "size_n (test_game [[1,2,3],[4,0,5],[6,7,8]] (1, 1)) \<in> {3, 4, 5, 6}"
    by (simp add: test_game_def)
  with generate_solvable [of HARD "\<lambda>k. [(0, 1), (0, - 1), (1, 0), (- 1, 0)]" 0]
    generate_solvable [of _ "\<lambda>k. [(- 1, 0), (1, 0), (0, - 1), (0, 1)]" 0
      "test_game [[1,2,3],[4,0,5],[6,7,8]] (1, 1)"]
  show ?thesis by blast
qed

text \<open>
  C3. After the constructor and any sequence of calls of \<open>generate_solvable_puzzle\<close>
  (for any difficulty) and of \<open>move_tile\<close> (for any arguments), with any outcome of
  the shuffles, no call has raised, the board is well formed and holds each value of
  \<open>0, \<dots>, size * size - 1\<close> exactly once and no other value, and the cell at
  \<open>blank_pos\<close> is in bounds and holds 0.
\<close>

theorem invariant_kept:
  "\<exists>s. ebind (init d rnd now) (\<lambda>s0. run s0 cs) = Inr s \<and>
        wf_grid (size_n s) (grid s) \<and>
        (\<forall>v. count_list (concat (grid s)) v = (if 0 \<le> v \<and> v < size_n s * size_n s then 1 else 0)) \<and>
        in_bounds (size_n s) (blank_pos s) \<and>
        grid_get (grid s) (fst (blank_pos s)) (snd (blank_pos s)) = Inr 0"
proof -
  have "1 \<le> difficulty_value d" by (cases d) simp_all
  then obtain s0 where "init d rnd now = Inr s0" "state_inv s0"
    unfolding init_def using generate_inv [of _ rnd now] by (metis select_convs(2))
  moreover from run_inv [OF this(2), of cs] obtain s where s: "run s0 cs = Inr s" "state_inv s"
    by blast
  moreover from s(2) have inv: "board_inv (size_n s) (grid s)"
    and wf: "wf_grid (size_n s) (grid s)" and ib: "in_bounds (size_n s) (blank_pos s)"
    and z: "cell (grid s) (blank_pos s) = 0"
    by (simp_all add: state_inv_def board_inv_def)
  moreover have "grid_get (grid s) (fst (blank_pos s)) (snd (blank_pos s)) = Inr 0"
    using grid_get_wf [OF wf, of "fst (blank_pos s)" "snd (blank_pos s)"] ib z by simp
  ultimately show ?thesis
    using board_inv_count [OF inv] by auto
qed

theorem invariant_kept_witness:
  "\<exists>s. ebind (init EASY (\<lambda>k. [(0, 1), (0, - 1), (1, 0), (- 1, 0)]) 0)
          (\<lambda>s0. run s0 [Move 2 1, Generate MEDIUM (\<lambda>k. [(1, 0), (0, 1), (- 1, 0), (0, - 1)]) 5,
                         Move 0 0]) = Inr s \<and>
        wf_grid (size_n s) (grid s) \<and>
        (\<forall>v. count_list (concat (grid s)) v = (if 0 \<le> v \<and> v < size_n s * size_n s then 1 else 0)) \<and>
        in_bounds (size_n s) (blank_pos s) \<and>
        grid_get (grid s) (fst (blank_pos s)) (snd (blank_pos s)) = Inr 0"
  by (rule invariant_kept)

subsection \<open>Construction\<close>

text \<open>
  C9. The constructor has no check of the size and no configuration error. Run with the
  size 0, its body builds the empty grid, and the call ends in the \<open>IndexError\<close> that
  the store of the blank into the empty grid raises.
\<close>

theorem constructor_body_size_zero:
  "init_body EASY 0 (\<lambda>k. [(0, 1), (0, - 1), (1, 0), (- 1, 0)]) 0 = Inl IndexError \<and>
   solved_rows 0 = [] \<and>
   grid_set (solved_rows 0) (0 - 1) (0 - 1) 0 = Inl IndexError"
  by (simp add: init_body_def generate_rejects solved_rows_def range_py_def grid_set_def
      py_index_def norm_index_def)

text \<open>
  C9, as the code has it. The constructor takes a difficulty, and the size of a
  difficulty is 3, 4, 5 or 6: for each of them the constructor returns a state of that
  size that satisfies the invariant, and it never raises. There is no check of the size:
  the body of the constructor run with a size of zero or below raises the
  \<open>IndexError\<close> of the store of the blank.
\<close>

theorem constructor_total:
  "difficulty_value d \<in> {3, 4, 5, 6} \<and>
   init d rnd now = init_body d (difficulty_value d) rnd now \<and>
   (\<exists>s. init d rnd now = Inr s \<and> state_inv s \<and> size_n s = difficulty_value d \<and>
         difficulty s = d) \<and>
   (v \<le> 0 \<longrightarrow> init_body d' v rnd now = Inl IndexError)"
proof -
  have v: "difficulty_value d \<in> {3, 4, 5, 6}" by (cases d) simp_all
  then have "1 \<le> difficulty_value d" by auto
  then have "\<exists>s. init d rnd now = Inr s \<and> state_inv s \<and> size_n s = difficulty_value d \<and>
         difficulty s = d"
    unfolding init_def using generate_inv [of _ rnd now]
    by (metis select_convs(1) select_convs(2))
  moreover have "init d rnd now = init_body d (difficulty_value d) rnd now"
    by (simp add: init_def init_body_def)
  moreover have "init_body d' v rnd now = Inl IndexError" if "v \<le> 0"
    unfolding init_body_def using that by (intro generate_rejects) simp
  ultimately show ?thesis using v by blast
qed

theorem constructor_total_witness:
  "difficulty_value EXPERT \<in> {3, 4, 5, 6} \<and>
   (\<exists>s. init EXPERT (\<lambda>k. [(0, 1), (0, - 1), (1, 0), (- 1, 0)]) 0 = Inr s \<and> state_inv s \<and>
         size_n s = difficulty_value EXPERT \<and> difficulty s = EXPERT) \<and>
   (- 1 :: int) \<le> 0 \<and>
   init_body HARD (- 1) (\<lambda>k. [(0, 1), (0, - 1), (1, 0), (- 1, 0)]) 0 = Inl IndexError"
proof -
  let ?rnd = "\<lambda>k::nat. [(0, 1), (0, - 1), (1, 0), (- 1, 0)] :: (int \<times> int) list"
  note t = constructor_total [of EXPERT ?rnd 0 "- 1" HARD]
  have neg: "(- 1 :: int) \<le> 0" by simp
  from t have "difficulty_value EXPERT \<in> {3, 4, 5, 6}" by (rule conjunct1)
  moreover from t have "\<exists>s. init EXPERT ?rnd 0 = Inr s \<and> state_inv s \<and>
      size_n s = difficulty_value EXPERT \<and> difficulty s = EXPERT"
    by (elim conjE)
  moreover from t neg have "init_body HARD (- 1) ?rnd 0 = Inl IndexError"
    by (elim conjE impE)
  ultimately show ?thesis using neg by (intro conjI)
qed

end
